theory Spec2Isabelle
  imports Complex_Main "HOL-Library.Multiset"
begin

section \<open>Numbers\<close>

text \<open>
  The times and the sort keys of a task are JavaScript numbers. The delay of a task may
  be any number, \<open>Infinity\<close> among them, so a start time, an expiration time and a sort
  index may be infinite, and the difference of two of them may be \<open>NaN\<close>. The finite
  numbers are the integers (the clock counts milliseconds). Sums, differences and
  comparisons are those of the language: a sum with \<open>NaN\<close> and the sum of the two
  infinities are \<open>NaN\<close>, and a comparison with \<open>NaN\<close> is false.
\<close>

datatype number = Finite int | Infinity | MinusInfinity | NaN

fun num_add :: "number \<Rightarrow> number \<Rightarrow> number" where
  "num_add (Finite a) (Finite b) = Finite (a + b)"
| "num_add NaN b = NaN"
| "num_add a NaN = NaN"
| "num_add Infinity MinusInfinity = NaN"
| "num_add MinusInfinity Infinity = NaN"
| "num_add Infinity b = Infinity"
| "num_add a Infinity = Infinity"
| "num_add MinusInfinity b = MinusInfinity"
| "num_add a MinusInfinity = MinusInfinity"

fun num_neg :: "number \<Rightarrow> number" where
  "num_neg (Finite a) = Finite (- a)"
| "num_neg Infinity = MinusInfinity"
| "num_neg MinusInfinity = Infinity"
| "num_neg NaN = NaN"

fun num_less :: "number \<Rightarrow> number \<Rightarrow> bool" where
  "num_less (Finite a) (Finite b) = (a < b)"
| "num_less NaN b = False"
| "num_less a NaN = False"
| "num_less MinusInfinity MinusInfinity = False"
| "num_less MinusInfinity b = True"
| "num_less a MinusInfinity = False"
| "num_less Infinity b = False"
| "num_less a Infinity = True"

instantiation number :: "{zero, plus, minus, ord}"
begin
definition zero_number :: number where "zero_number = Finite 0"
definition plus_number :: "number \<Rightarrow> number \<Rightarrow> number" where "plus_number a b = num_add a b"
definition minus_number :: "number \<Rightarrow> number \<Rightarrow> number" where
  "minus_number a b = num_add a (num_neg b)"
definition less_number :: "number \<Rightarrow> number \<Rightarrow> bool" where "less_number a b = num_less a b"
definition less_eq_number :: "number \<Rightarrow> number \<Rightarrow> bool" where
  "less_eq_number a b = (num_less a b \<or> (a = b \<and> a \<noteq> NaN))"
instance ..
end

lemma number_finite [simp]:
  "Finite a + Finite b = Finite (a + b)"
  "Finite a - Finite b = Finite (a - b)"
  "(Finite a < Finite b) = (a < b)"
  "(Finite a \<le> Finite b) = (a \<le> b)"
  "(0 :: number) = Finite 0"
  by (auto simp: plus_number_def minus_number_def less_number_def less_eq_number_def
      zero_number_def)

lemma num_less_NaN [simp]: "num_less x NaN = False"
  by (cases x) simp_all

lemma number_infinite [simp]:
  "Infinity + Finite b = Infinity"
  "Infinity - Finite b = Infinity"
  "Infinity - Infinity = NaN"
  "(Finite a < Infinity) = True"
  "(Infinity < Finite b) = False"
  "(Infinity \<le> Finite b) = False"
  "(Infinity < Infinity) = False"
  "(NaN < x) = False"
  "(x < NaN) = False"
  "(NaN \<le> x) = False"
  "(x \<le> NaN) = False"
  by (auto simp: plus_number_def minus_number_def less_number_def less_eq_number_def)

section \<open>User code\<close>

text \<open>
  The scheduler stores and runs functions supplied by its caller. A user function is
  modelled by what it does to the scheduler: the calls of the public API it makes, in
  order, and how it ends (it returns a value that is not a function, it returns a
  function, or it throws). A function that a task callback returns is its continuation.
  An exception raised by a nested call ends the enclosing function as well. The options
  of a submission are absent or an object, whose \<open>delay\<close> is a number or is not one.
\<close>

datatype options = OptionsAbsent | OptionsObject "number option"

datatype action =
    ScheduleCallback int fn options
  | CancelCallback nat
  | RunWithPriority int fn
  | Next fn
  | WrapCallback fn
  | CallWrapped int fn
  | PauseExecution
  | ContinueExecution
  | GetFirstCallbackNode
  | GetCurrentPriorityLevel
  | ShouldYield
  | RequestPaint
  | Now
  | ForceFrameRate rat
and fn = Fn "action list" result
and result = ReturnValue | ReturnFunction fn | Throw

section \<open>Task records and the object store\<close>

text \<open>
  A task is a mutable object that the queues and the caller's handle share, so tasks
  live in a store (a list, the address of a task being its position) and the queues hold
  addresses. The field \<open>id\<close> of the source is \<open>id_task\<close> here.
\<close>

record Task =
  id_task :: int
  callback :: "fn option"
  priorityLevel :: int
  startTime :: number
  expirationTime :: number
  sortIndex :: number

section \<open>SchedulerMinHeap.js\<close>

definition compare :: "Task list \<Rightarrow> nat \<Rightarrow> nat \<Rightarrow> number" where
  "compare st a b =
     (let diff = sortIndex (st ! a) - sortIndex (st ! b)
      in if diff \<noteq> 0 then diff else Finite (id_task (st ! a) - id_task (st ! b)))"

function siftUp :: "Task list \<Rightarrow> nat list \<Rightarrow> nat \<Rightarrow> nat \<Rightarrow> nat list" where
  "siftUp st heap node index =
     (if index > 0 then
        (let parentIndex = (index - 1) div 2;
             parent = heap ! parentIndex
         in if compare st parent node > 0
            then siftUp st (heap[parentIndex := node, index := parent]) node parentIndex
            else heap)
      else heap)"
  by pat_completeness auto
termination
  by (relation "measure (\<lambda>(st, heap, node, index). index)") auto

declare siftUp.simps [simp del]

function siftDown_loop ::
  "Task list \<Rightarrow> nat list \<Rightarrow> nat \<Rightarrow> nat \<Rightarrow> nat \<Rightarrow> nat \<Rightarrow> nat list" where
  "siftDown_loop st heap node index len halfLength =
     (if index < halfLength then
        (let leftIndex = (index + 1) * 2 - 1;
             left = heap ! leftIndex;
             rightIndex = leftIndex + 1;
             right = heap ! rightIndex
         in if compare st left node < 0 then
              (if rightIndex < len \<and> compare st right left < 0
               then siftDown_loop st (heap[index := right, rightIndex := node]) node
                      rightIndex len halfLength
               else siftDown_loop st (heap[index := left, leftIndex := node]) node
                      leftIndex len halfLength)
            else if rightIndex < len \<and> compare st right node < 0
            then siftDown_loop st (heap[index := right, rightIndex := node]) node
                   rightIndex len halfLength
            else heap)
      else heap)"
  by pat_completeness auto
termination
  by (relation "measure (\<lambda>(st, heap, node, index, len, halfLength). halfLength - index)")
     auto

declare siftDown_loop.simps [simp del]

definition siftDown :: "Task list \<Rightarrow> nat list \<Rightarrow> nat \<Rightarrow> nat \<Rightarrow> nat list" where
  "siftDown st heap node i = siftDown_loop st heap node i (length heap) (length heap div 2)"

definition push :: "Task list \<Rightarrow> nat list \<Rightarrow> nat \<Rightarrow> nat list" where
  "push st heap node = (let index = length heap in siftUp st (heap @ [node]) node index)"

definition peek :: "nat list \<Rightarrow> nat option" where
  "peek heap = (if length heap = 0 then None else Some (heap ! 0))"

definition pop :: "Task list \<Rightarrow> nat list \<Rightarrow> nat option \<times> nat list" where
  "pop st heap =
     (if length heap = 0 then (None, heap)
      else
        (let first = heap ! 0;
             last = last heap;
             heap1 = butlast heap
         in if last \<noteq> first
            then (Some first, siftDown st (heap1[0 := last]) last 0)
            else (Some first, heap1)))"

subsection \<open>The heap operations keep the elements\<close>

lemma siftUp_length [simp]: "length (siftUp st h node k) = length h"
  by (induction st h node k rule: siftUp.induct) (subst siftUp.simps, simp add: Let_def)

lemma siftUp_mset:
  "k < length h \<Longrightarrow> h ! k = node \<Longrightarrow> mset (siftUp st h node k) = mset h"
proof (induction st h node k rule: siftUp.induct)
  case (1 st heap node index)
  show ?case
  proof (cases "index > 0 \<and> compare st (heap ! ((index - 1) div 2)) node > 0")
    case False
    then have "siftUp st heap node index = heap" by (subst siftUp.simps) (auto simp add: Let_def)
    then show ?thesis by simp
  next
    case True
    let ?p = "(index - 1) div 2"
    have pk: "?p < index" using True by linarith
    have eq: "siftUp st heap node index =
                siftUp st (heap[?p := node, index := heap ! ?p]) node ?p"
      using True by (subst siftUp.simps) (simp add: Let_def)
    have "mset (siftUp st (heap[?p := node, index := heap ! ?p]) node ?p)
          = mset (heap[?p := node, index := heap ! ?p])"
      using "1.IH"[OF _ refl refl] True pk "1.prems" by simp
    also have "\<dots> = mset heap"
      using mset_swap[of index heap ?p] pk "1.prems" by simp
    finally show ?thesis using eq by simp
  qed
qed

lemma siftDown_loop_length [simp]:
  "length (siftDown_loop st h node k len half) = length h"
  by (induction st h node k len half rule: siftDown_loop.induct)
     (subst siftDown_loop.simps, simp add: Let_def)

lemma siftDown_loop_mset:
  "len = length h \<Longrightarrow> half = length h div 2 \<Longrightarrow> k < length h \<Longrightarrow> h ! k = node \<Longrightarrow>
   mset (siftDown_loop st h node k len half) = mset h"
proof (induction st h node k len half rule: siftDown_loop.induct)
  case (1 st heap node index len halfLength)
  note prems = "1.prems"
  let ?l = "(index + 1) * 2 - 1"
  let ?r = "?l + 1"
  have sw: "\<And>c. c < length heap \<Longrightarrow> mset (heap[index := heap ! c, c := node]) = mset heap"
    using mset_swap[of _ heap index] prems(3,4) by simp
  show ?case
  proof (cases "index < halfLength")
    case False
    then show ?thesis by (subst siftDown_loop.simps) simp
  next
    case lt: True
    have "2 * index + 1 < length heap" using lt prems(2) by linarith
    then have llen: "?l < length heap" by simp
    show ?thesis
    proof (cases "compare st (heap ! ?l) node < 0")
      case left_lt: True
      show ?thesis
      proof (cases "?r < len \<and> compare st (heap ! ?r) (heap ! ?l) < 0")
        case True
        have eq: "siftDown_loop st heap node index len halfLength =
                  siftDown_loop st (heap[index := heap ! ?r, ?r := node]) node ?r len halfLength"
          using lt left_lt True by (subst siftDown_loop.simps) (simp add: Let_def)
        have rlen: "?r < length heap" using True prems(1) by simp
        show ?thesis
          using "1.IH"(1)[OF lt refl refl refl refl left_lt True] prems(1,2) rlen sw[OF rlen] eq
          by simp
      next
        case False
        have eq: "siftDown_loop st heap node index len halfLength =
                  siftDown_loop st (heap[index := heap ! ?l, ?l := node]) node ?l len halfLength"
          using lt left_lt False by (subst siftDown_loop.simps) (auto simp add: Let_def)
        show ?thesis
          using "1.IH"(2)[OF lt refl refl refl refl left_lt False] prems(1,2) llen sw[OF llen] eq
          by simp
      qed
    next
      case left_ge: False
      show ?thesis
      proof (cases "?r < len \<and> compare st (heap ! ?r) node < 0")
        case True
        have eq: "siftDown_loop st heap node index len halfLength =
                  siftDown_loop st (heap[index := heap ! ?r, ?r := node]) node ?r len halfLength"
          using lt left_ge True by (subst siftDown_loop.simps) (simp add: Let_def)
        have rlen: "?r < length heap" using True prems(1) by simp
        show ?thesis
          using "1.IH"(3)[OF lt refl refl refl refl left_ge True] prems(1,2) rlen sw[OF rlen] eq
          by simp
      next
        case False
        then show ?thesis using lt left_ge by (subst siftDown_loop.simps) (auto simp add: Let_def)
      qed
    qed
  qed
qed

lemma push_mset: "mset (push st h t) = mset h + {#t#}"
  unfolding push_def Let_def by (subst siftUp_mset) simp_all

lemma siftDown_mset:
  "k < length h \<Longrightarrow> h ! k = node \<Longrightarrow> mset (siftDown st h node k) = mset h"
  unfolding siftDown_def by (rule siftDown_loop_mset) simp_all

lemma pop_empty: "pop st [] = (None, [])"
  by (simp add: pop_def)

lemma pop_fst: "h \<noteq> [] \<Longrightarrow> fst (pop st h) = Some (h ! 0)"
  by (simp add: pop_def Let_def)

lemma mset_butlast: "h \<noteq> [] \<Longrightarrow> mset (butlast h) = mset h - {#last h#}"
proof -
  assume "h \<noteq> []"
  then have "h = butlast h @ [last h]" by simp
  then have "mset h = mset (butlast h) + {#last h#}" by (metis mset_append mset_single_iff_right mset.simps(1) mset.simps(2) union_mset_add_mset_right add.right_neutral)
  then show ?thesis by simp
qed

lemma pop_mset: "h \<noteq> [] \<Longrightarrow> mset (snd (pop st h)) = mset h - {#h ! 0#}"
proof -
  assume False: "h \<noteq> []"
  show ?thesis
  proof (cases "last h \<noteq> h ! 0")
    case True
    have ne: "0 < length (butlast h)"
    proof (rule ccontr)
      assume "\<not> 0 < length (butlast h)"
      then have "length h = 1" using False by (cases h) (auto split: if_splits)
      then have "last h = h ! 0" using False by (simp add: last_conv_nth)
      then show False using True by simp
    qed
    have b0: "butlast h ! 0 = h ! 0" using ne by (simp add: nth_butlast)
    have "mset (siftDown st ((butlast h)[0 := last h]) (last h) 0)
          = mset ((butlast h)[0 := last h])"
      by (rule siftDown_mset) (use ne in simp_all)
    also have "\<dots> = add_mset (last h) (mset (butlast h) - {#butlast h ! 0#})"
      using ne by (simp add: mset_update del: length_butlast)
    also have "\<dots> = add_mset (last h) (mset (butlast h)) - {#h ! 0#}"
      using ne b0 nth_mem[OF ne] by (simp del: length_butlast)
    also have "add_mset (last h) (mset (butlast h)) = mset h"
      using False by (metis append_butlast_last_id mset.simps(2) mset_rev rev.simps(2) rev_rev_ident rev_append mset_append union_mset_add_mset_right add.right_neutral mset.simps(1))
    finally show ?thesis using False True by (simp add: pop_def Let_def)
  next
    case eq: False
    then show ?thesis using False by (simp add: pop_def Let_def mset_butlast)
  qed
qed

section \<open>SchedulerFeatureFlags.js and the priority levels\<close>

definition enableSchedulerDebugging :: bool where "enableSchedulerDebugging = False"
definition enableIsInputPending :: bool where "enableIsInputPending = False"
definition enableIsInputPendingContinuous :: bool where "enableIsInputPendingContinuous = False"
definition frameYieldMs :: int where "frameYieldMs = 5"
definition continuousYieldMs :: int where "continuousYieldMs = 50"
definition maxYieldMs :: int where "maxYieldMs = 300"

text \<open>
  Modelled from the spec: \<open>SchedulerPriorities.js\<close>, from which \<open>Scheduler.js\<close> imports
  its five priority levels, is not among the sources. The spec names the levels
  Immediate, UserBlocking, Normal, Low and Idle and fixes no numbers; they are five
  distinct numbers here, and a priority argument is any number.
\<close>

definition ImmediatePriority :: int where "ImmediatePriority = 1"
definition UserBlockingPriority :: int where "UserBlockingPriority = 2"
definition NormalPriority :: int where "NormalPriority = 3"
definition LowPriority :: int where "LowPriority = 4"
definition IdlePriority :: int where "IdlePriority = 5"

section \<open>Scheduler.js: state\<close>

definition maxSigned31BitInt :: int where "maxSigned31BitInt = 1073741823"
definition IMMEDIATE_PRIORITY_TIMEOUT :: int where "IMMEDIATE_PRIORITY_TIMEOUT = - 1"
definition USER_BLOCKING_PRIORITY_TIMEOUT :: int where "USER_BLOCKING_PRIORITY_TIMEOUT = 250"
definition NORMAL_PRIORITY_TIMEOUT :: int where "NORMAL_PRIORITY_TIMEOUT = 5000"
definition LOW_PRIORITY_TIMEOUT :: int where "LOW_PRIORITY_TIMEOUT = 10000"
definition IDLE_PRIORITY_TIMEOUT :: int where "IDLE_PRIORITY_TIMEOUT = maxSigned31BitInt"

text \<open>
  How a call of user code ends, and what a task callback returns: a continuation (a
  function) or anything else.
\<close>

datatype 'a completion = Returned 'a | Thrown

datatype retval = NotFunction | Function fn

text \<open>The only function ever passed to \<open>requestHostCallback\<close> is \<open>flushWork\<close>.\<close>

datatype hostCallback = FlushWork

text \<open>
  Two logs that the program does not have are kept beside its variables: the calls the
  scheduler makes to the host, and the trace of callback invocations (the task and the
  argument \<open>didUserCallbackTimeout\<close>) and of cancellations (the task, and whether its
  callback slot held a function when \<open>unstable_cancelCallback\<close> was called).
\<close>

datatype hostCall = PostMessage | SetTimeout int number | ClearTimeout int | ConsoleError

datatype event = Invoked nat bool | Cancelled nat bool

text \<open>
  The module variables of \<open>Scheduler.js\<close> (its variable \<open>startTime\<close> is
  \<open>startTime_slice\<close>), the task objects, and the host: the clock that
  \<open>performance.now()\<close> reads, which advances by the next entry of \<open>elapse\<close> before each
  reading, the timeouts that are set and have not fired, the messages that are posted
  and not delivered, and what \<open>navigator.scheduling.isInputPending\<close> would answer
  (nothing when the host has no such function; else whether a discrete and whether a
  continuous input is pending). Times are whole milliseconds.
\<close>

record Scheduler =
  taskQueue :: "nat list"
  timerQueue :: "nat list"
  taskIdCounter :: int
  isSchedulerPaused :: bool
  currentTask :: "nat option"
  currentPriorityLevel :: int
  isPerformingWork :: bool
  isHostCallbackScheduled :: bool
  isHostTimeoutScheduled :: bool
  isMessageLoopRunning :: bool
  scheduledHostCallback :: "hostCallback option"
  taskTimeoutID :: int
  frameInterval :: int
  startTime_slice :: int
  needsPaint :: bool
  store :: "Task list"
  clock :: int
  elapse :: "nat list"
  hostTimers :: "(int \<times> number) list"
  nextTimeoutID :: int
  hostMessages :: nat
  hostInputPending :: "(bool \<times> bool) option"
  hostCalls :: "hostCall list"
  trace :: "event list"

definition initial :: "int \<Rightarrow> nat list \<Rightarrow> (bool \<times> bool) option \<Rightarrow> Scheduler" where
  "initial t0 ds inp =
     \<lparr>taskQueue = [], timerQueue = [], taskIdCounter = 1, isSchedulerPaused = False,
      currentTask = None, currentPriorityLevel = NormalPriority, isPerformingWork = False,
      isHostCallbackScheduled = False, isHostTimeoutScheduled = False,
      isMessageLoopRunning = False, scheduledHostCallback = None, taskTimeoutID = - 1,
      frameInterval = frameYieldMs, startTime_slice = - 1, needsPaint = False,
      store = [], clock = t0, elapse = ds, hostTimers = [], nextTimeoutID = 1,
      hostMessages = 0, hostInputPending = inp, hostCalls = [], trace = []\<rparr>"

section \<open>Scheduler.js: the host adapter\<close>

definition getCurrentTime :: "Scheduler \<Rightarrow> int \<times> Scheduler" where
  "getCurrentTime s =
     (case elapse s of
        [] \<Rightarrow> (clock s, s)
      | d # ds \<Rightarrow> (clock s + int d, s\<lparr>clock := clock s + int d, elapse := ds\<rparr>))"

definition schedulePerformWorkUntilDeadline :: "Scheduler \<Rightarrow> Scheduler" where
  "schedulePerformWorkUntilDeadline s =
     s\<lparr>hostMessages := hostMessages s + 1, hostCalls := hostCalls s @ [PostMessage]\<rparr>"

definition requestHostCallback :: "hostCallback \<Rightarrow> Scheduler \<Rightarrow> Scheduler" where
  "requestHostCallback cb s =
     (let s1 = s\<lparr>scheduledHostCallback := Some cb\<rparr>
      in if \<not> isMessageLoopRunning s1
         then schedulePerformWorkUntilDeadline (s1\<lparr>isMessageLoopRunning := True\<rparr>)
         else s1)"

text \<open>
  \<open>requestHostTimeout(handleTimeout, ms)\<close>: the callback is \<open>handleTimeout\<close> at every
  call, and \<open>setTimeout\<close> answers with a fresh id.
\<close>

definition requestHostTimeout :: "number \<Rightarrow> Scheduler \<Rightarrow> Scheduler" where
  "requestHostTimeout ms s =
     s\<lparr>taskTimeoutID := nextTimeoutID s,
       hostTimers := hostTimers s @ [(nextTimeoutID s, ms)],
       nextTimeoutID := nextTimeoutID s + 1,
       hostCalls := hostCalls s @ [SetTimeout (nextTimeoutID s) ms]\<rparr>"

definition cancelHostTimeout :: "Scheduler \<Rightarrow> Scheduler" where
  "cancelHostTimeout s =
     s\<lparr>hostTimers := filter (\<lambda>(i, ms). i \<noteq> taskTimeoutID s) (hostTimers s),
       hostCalls := hostCalls s @ [ClearTimeout (taskTimeoutID s)],
       taskTimeoutID := - 1\<rparr>"

definition shouldYieldToHost :: "Scheduler \<Rightarrow> bool \<times> Scheduler" where
  "shouldYieldToHost s =
     (let (now, s1) = getCurrentTime s;
          timeElapsed = now - startTime_slice s1
      in if timeElapsed < frameInterval s1 then (False, s1)
         else if enableIsInputPending then
           (if needsPaint s1 then (True, s1)
            else if timeElapsed < continuousYieldMs then
              (case hostInputPending s1 of
                 Some (discreteInput, continuousInput) \<Rightarrow> (discreteInput, s1)
               | None \<Rightarrow> (True, s1))
            else if timeElapsed < maxYieldMs then
              (case hostInputPending s1 of
                 Some (discreteInput, continuousInput) \<Rightarrow>
                   (discreteInput \<or> (enableIsInputPendingContinuous \<and> continuousInput), s1)
               | None \<Rightarrow> (True, s1))
            else (True, s1))
         else (True, s1))"

definition requestPaint :: "Scheduler \<Rightarrow> Scheduler" where
  "requestPaint s =
     (if enableIsInputPending \<and> hostInputPending s \<noteq> None then s\<lparr>needsPaint := True\<rparr> else s)"

definition forceFrameRate :: "rat \<Rightarrow> Scheduler \<Rightarrow> Scheduler" where
  "forceFrameRate fps s =
     (if fps < 0 \<or> fps > 125 then s\<lparr>hostCalls := hostCalls s @ [ConsoleError]\<rparr>
      else if fps > 0 then s\<lparr>frameInterval := \<lfloor>1000 / fps\<rfloor>\<rparr>
      else s\<lparr>frameInterval := frameYieldMs\<rparr>)"

section \<open>Scheduler.js: timers\<close>

lemma pop_length: "length (snd (pop st h)) = length h - 1"
  by (simp add: pop_def Let_def siftDown_def)

function advanceTimers :: "int \<Rightarrow> Scheduler \<Rightarrow> Scheduler" where
  "advanceTimers currentTime s =
     (case peek (timerQueue s) of
        None \<Rightarrow> s
      | Some timer \<Rightarrow>
          if callback (store s ! timer) = None then
            advanceTimers currentTime (s\<lparr>timerQueue := snd (pop (store s) (timerQueue s))\<rparr>)
          else if startTime (store s ! timer) \<le> Finite currentTime then
            (let s1 = s\<lparr>timerQueue := snd (pop (store s) (timerQueue s))\<rparr>;
                 s2 = s1\<lparr>store := (store s1)[timer :=
                         (store s1 ! timer)\<lparr>sortIndex := expirationTime (store s1 ! timer)\<rparr>]\<rparr>;
                 s3 = s2\<lparr>taskQueue := push (store s2) (taskQueue s2) timer\<rparr>
             in advanceTimers currentTime s3)
          else s)"
  by pat_completeness auto
termination
  by (relation "measure (\<lambda>(currentTime, s). length (timerQueue s))")
     (auto simp: pop_length peek_def split: if_splits)

declare advanceTimers.simps [simp del]

definition handleTimeout :: "int \<Rightarrow> Scheduler \<Rightarrow> Scheduler" where
  "handleTimeout currentTime s =
     (let s1 = s\<lparr>isHostTimeoutScheduled := False\<rparr>;
          s2 = advanceTimers currentTime s1
      in if \<not> isHostCallbackScheduled s2 then
           (if peek (taskQueue s2) \<noteq> None
            then requestHostCallback FlushWork (s2\<lparr>isHostCallbackScheduled := True\<rparr>)
            else (case peek (timerQueue s2) of
                    Some firstTimer \<Rightarrow>
                      requestHostTimeout (startTime (store s2 ! firstTimer) - Finite currentTime) s2
                  | None \<Rightarrow> s2))
         else s2)"

section \<open>Scheduler.js: the public API\<close>

definition timeoutOf :: "int \<Rightarrow> int" where
  "timeoutOf level =
     (if level = ImmediatePriority then IMMEDIATE_PRIORITY_TIMEOUT
      else if level = UserBlockingPriority then USER_BLOCKING_PRIORITY_TIMEOUT
      else if level = IdlePriority then IDLE_PRIORITY_TIMEOUT
      else if level = LowPriority then LOW_PRIORITY_TIMEOUT
      else NORMAL_PRIORITY_TIMEOUT)"

definition unstable_scheduleCallback ::
  "int \<Rightarrow> fn \<Rightarrow> options \<Rightarrow> Scheduler \<Rightarrow> nat \<times> Scheduler" where
  "unstable_scheduleCallback level cb opts s =
     (let (currentTime, s1) = getCurrentTime s;
          startTime' =
            (case opts of
               OptionsObject (Some delay) \<Rightarrow>
                 if delay > 0 then Finite currentTime + delay else Finite currentTime
             | _ \<Rightarrow> Finite currentTime);
          timeout = timeoutOf level;
          expirationTime' = startTime' + Finite timeout;
          newTask = length (store s1);
          s2 = s1\<lparr>store := store s1 @
                    [\<lparr>id_task = taskIdCounter s1, callback = Some cb, priorityLevel = level,
                      startTime = startTime', expirationTime = expirationTime',
                      sortIndex = Finite (- 1)\<rparr>],
                  taskIdCounter := taskIdCounter s1 + 1\<rparr>
      in if startTime' > Finite currentTime then
           (let s3 = s2\<lparr>store := (store s2)[newTask :=
                           (store s2 ! newTask)\<lparr>sortIndex := startTime'\<rparr>]\<rparr>;
                s4 = s3\<lparr>timerQueue := push (store s3) (timerQueue s3) newTask\<rparr>
            in if peek (taskQueue s4) = None \<and> Some newTask = peek (timerQueue s4) then
                 (let s5 = (if isHostTimeoutScheduled s4 then cancelHostTimeout s4
                            else s4\<lparr>isHostTimeoutScheduled := True\<rparr>)
                  in (newTask, requestHostTimeout (startTime' - Finite currentTime) s5))
               else (newTask, s4))
         else
           (let s3 = s2\<lparr>store := (store s2)[newTask :=
                           (store s2 ! newTask)\<lparr>sortIndex := expirationTime'\<rparr>]\<rparr>;
                s4 = s3\<lparr>taskQueue := push (store s3) (taskQueue s3) newTask\<rparr>
            in if \<not> isHostCallbackScheduled s4 \<and> \<not> isPerformingWork s4
               then (newTask, requestHostCallback FlushWork (s4\<lparr>isHostCallbackScheduled := True\<rparr>))
               else (newTask, s4)))"

text \<open>
  The handle passed to \<open>unstable_cancelCallback\<close> is a task that
  \<open>unstable_scheduleCallback\<close> returned; on any other object the call does nothing to the
  scheduler.
\<close>

definition unstable_cancelCallback :: "nat \<Rightarrow> Scheduler \<Rightarrow> Scheduler" where
  "unstable_cancelCallback task s =
     (if task < length (store s) then
        s\<lparr>store := (store s)[task := (store s ! task)\<lparr>callback := None\<rparr>],
          trace := trace s @ [Cancelled task (callback (store s ! task) \<noteq> None)]\<rparr>
      else s)"

definition unstable_pauseExecution :: "Scheduler \<Rightarrow> Scheduler" where
  "unstable_pauseExecution s = s\<lparr>isSchedulerPaused := True\<rparr>"

definition unstable_continueExecution :: "Scheduler \<Rightarrow> Scheduler" where
  "unstable_continueExecution s =
     (let s1 = s\<lparr>isSchedulerPaused := False\<rparr>
      in if \<not> isHostCallbackScheduled s1 \<and> \<not> isPerformingWork s1
         then requestHostCallback FlushWork (s1\<lparr>isHostCallbackScheduled := True\<rparr>)
         else s1)"

definition unstable_getFirstCallbackNode :: "Scheduler \<Rightarrow> nat option" where
  "unstable_getFirstCallbackNode s = peek (taskQueue s)"

definition unstable_getCurrentPriorityLevel :: "Scheduler \<Rightarrow> int" where
  "unstable_getCurrentPriorityLevel s = currentPriorityLevel s"

text \<open>
  The functions that take user code take it as a function on the state: what the user's
  function does when it is called there. \<open>try ... finally\<close> restores on both exits.
\<close>

definition unstable_runWithPriority ::
  "int \<Rightarrow> (Scheduler \<Rightarrow> 'r completion \<times> Scheduler) \<Rightarrow> Scheduler \<Rightarrow> 'r completion \<times> Scheduler"
  where
  "unstable_runWithPriority level eventHandler s =
     (let level' =
            (if level = ImmediatePriority \<or> level = UserBlockingPriority \<or>
                level = NormalPriority \<or> level = LowPriority \<or> level = IdlePriority
             then level else NormalPriority);
          previousPriorityLevel = currentPriorityLevel s;
          (r, s1) = eventHandler (s\<lparr>currentPriorityLevel := level'\<rparr>)
      in (r, s1\<lparr>currentPriorityLevel := previousPriorityLevel\<rparr>))"

definition unstable_next ::
  "(Scheduler \<Rightarrow> 'r completion \<times> Scheduler) \<Rightarrow> Scheduler \<Rightarrow> 'r completion \<times> Scheduler"
  where
  "unstable_next eventHandler s =
     (let level' =
            (if currentPriorityLevel s = ImmediatePriority \<or>
                currentPriorityLevel s = UserBlockingPriority \<or>
                currentPriorityLevel s = NormalPriority
             then NormalPriority else currentPriorityLevel s);
          previousPriorityLevel = currentPriorityLevel s;
          (r, s1) = eventHandler (s\<lparr>currentPriorityLevel := level'\<rparr>)
      in (r, s1\<lparr>currentPriorityLevel := previousPriorityLevel\<rparr>))"

text \<open>
  \<open>unstable_wrapCallback(callback)\<close> returns a function; \<open>wrapped parent callback\<close> is
  that function, for the priority level that was current at the wrapping.
\<close>

definition wrapped ::
  "int \<Rightarrow> (Scheduler \<Rightarrow> 'r completion \<times> Scheduler) \<Rightarrow> Scheduler \<Rightarrow> 'r completion \<times> Scheduler"
  where
  "wrapped parentPriorityLevel cb s =
     (let previousPriorityLevel = currentPriorityLevel s;
          (r, s1) = cb (s\<lparr>currentPriorityLevel := parentPriorityLevel\<rparr>)
      in (r, s1\<lparr>currentPriorityLevel := previousPriorityLevel\<rparr>))"

definition unstable_wrapCallback ::
  "(Scheduler \<Rightarrow> 'r completion \<times> Scheduler) \<Rightarrow> Scheduler \<Rightarrow>
   (Scheduler \<Rightarrow> 'r completion \<times> Scheduler)" where
  "unstable_wrapCallback cb s = wrapped (currentPriorityLevel s) cb"

section \<open>Running user code\<close>

text \<open>
  What a user function does when it is called: its API calls run in order, a call that
  throws ends the function, and the function ends as it says. The three lemmas let the
  recursion pass through the API functions that call user code.
\<close>

lemma unstable_runWithPriority_cong [fundef_cong]:
  "level = level' \<Longrightarrow> s = s' \<Longrightarrow> (\<And>t. h t = h' t) \<Longrightarrow>
   unstable_runWithPriority level h s = unstable_runWithPriority level' h' s'"
  by (simp add: unstable_runWithPriority_def)

lemma unstable_next_cong [fundef_cong]:
  "s = s' \<Longrightarrow> (\<And>t. h t = h' t) \<Longrightarrow> unstable_next h s = unstable_next h' s'"
  by (simp add: unstable_next_def)

lemma wrapped_cong [fundef_cong]:
  "level = level' \<Longrightarrow> s = s' \<Longrightarrow> (\<And>t. h t = h' t) \<Longrightarrow>
   wrapped level h s = wrapped level' h' s'"
  by (simp add: wrapped_def)

definition discard :: "'a completion \<Rightarrow> unit completion" where
  "discard r = (case r of Returned v \<Rightarrow> Returned () | Thrown \<Rightarrow> Thrown)"

fun run_fn :: "fn \<Rightarrow> Scheduler \<Rightarrow> retval completion \<times> Scheduler"
  and run_actions :: "action list \<Rightarrow> Scheduler \<Rightarrow> unit completion \<times> Scheduler"
  and do_action :: "action \<Rightarrow> Scheduler \<Rightarrow> unit completion \<times> Scheduler"
where
  "run_fn (Fn body res) s =
     (let (r, s1) = run_actions body s
      in (case r of
            Thrown \<Rightarrow> Thrown
          | Returned u \<Rightarrow>
              (case res of
                 Throw \<Rightarrow> Thrown
               | ReturnValue \<Rightarrow> Returned NotFunction
               | ReturnFunction f \<Rightarrow> Returned (Function f)),
          s1))"
| "run_actions [] s = (Returned (), s)"
| "run_actions (a # as) s =
     (let (r, s1) = do_action a s
      in case r of
           Thrown \<Rightarrow> (Thrown, s1)
         | Returned u \<Rightarrow> run_actions as s1)"
| "do_action (ScheduleCallback level cb opts) s =
     (Returned (), snd (unstable_scheduleCallback level cb opts s))"
| "do_action (CancelCallback task) s = (Returned (), unstable_cancelCallback task s)"
| "do_action (RunWithPriority level f) s =
     (let (r, s1) = unstable_runWithPriority level (run_fn f) s in (discard r, s1))"
| "do_action (Next f) s =
     (let (r, s1) = unstable_next (run_fn f) s in (discard r, s1))"
| "do_action (WrapCallback f) s = (Returned (), s)"
| "do_action (CallWrapped parent f) s =
     (let (r, s1) = wrapped parent (run_fn f) s in (discard r, s1))"
| "do_action PauseExecution s = (Returned (), unstable_pauseExecution s)"
| "do_action ContinueExecution s = (Returned (), unstable_continueExecution s)"
| "do_action GetFirstCallbackNode s = (Returned (), s)"
| "do_action GetCurrentPriorityLevel s = (Returned (), s)"
| "do_action ShouldYield s = (Returned (), snd (shouldYieldToHost s))"
| "do_action RequestPaint s = (Returned (), requestPaint s)"
| "do_action Now s = (Returned (), snd (getCurrentTime s))"
| "do_action (ForceFrameRate fps) s = (Returned (), forceFrameRate fps s)"


section \<open>Scheduler.js: the work loop\<close>

text \<open>
  One turn of the \<open>while\<close> loop of \<open>workLoop\<close>, from the test of the loop condition
  to the assignment \<open>currentTask = peek(taskQueue)\<close> that ends the body. The turn either
  leaves the loop (the condition fails, a \<open>break\<close>, or the callback throws) or goes
  round again with the local \<open>currentTime\<close>. User code cannot assign the module
  variable \<open>currentTask\<close>, so the body's \<open>currentTask\<close> is the task read at its top.
  The body is cut in three: \<open>shouldBreak\<close> is the test that ends in \<open>break\<close>,
  \<open>beforeCallback\<close> is what is done between reading a callback that is a function
  and calling it, and \<open>afterCallback\<close> is what is done after it has returned, up to
  and with the call of \<open>advanceTimers\<close>.
  The branches under \<open>enableProfiling\<close>, a constant false whose functions are not
  among the sources, are left out. The loop itself may run forever.
\<close>

datatype step = Exit "int completion" Scheduler | Again int Scheduler

definition shouldBreak :: "bool \<Rightarrow> int \<Rightarrow> nat \<Rightarrow> Scheduler \<Rightarrow> bool \<times> Scheduler" where
  "shouldBreak hasTimeRemaining currentTime task s =
     (if expirationTime (store s ! task) > Finite currentTime then
        (if \<not> hasTimeRemaining then (True, s) else shouldYieldToHost s)
      else (False, s))"

definition beforeCallback :: "nat \<Rightarrow> int \<Rightarrow> Scheduler \<Rightarrow> Scheduler" where
  "beforeCallback task currentTime s =
     (let s1 = s\<lparr>store := (store s)[task := (store s ! task)\<lparr>callback := None\<rparr>]\<rparr>;
          s2 = s1\<lparr>currentPriorityLevel := priorityLevel (store s1 ! task)\<rparr>;
          didUserCallbackTimeout = (expirationTime (store s2 ! task) \<le> Finite currentTime)
      in s2\<lparr>trace := trace s2 @ [Invoked task didUserCallbackTimeout]\<rparr>)"

definition afterCallback :: "nat \<Rightarrow> retval \<Rightarrow> Scheduler \<Rightarrow> int \<times> Scheduler" where
  "afterCallback task continuationCallback s =
     (let (currentTime, s1) = getCurrentTime s;
          s2 = (case continuationCallback of
                  Function f \<Rightarrow>
                    s1\<lparr>store := (store s1)[task := (store s1 ! task)\<lparr>callback := Some f\<rparr>]\<rparr>
                | NotFunction \<Rightarrow>
                    if Some task = peek (taskQueue s1)
                    then s1\<lparr>taskQueue := snd (pop (store s1) (taskQueue s1))\<rparr>
                    else s1)
      in (currentTime, advanceTimers currentTime s2))"

definition workLoop_iteration :: "bool \<Rightarrow> int \<Rightarrow> Scheduler \<Rightarrow> step" where
  "workLoop_iteration hasTimeRemaining currentTime s =
     (case currentTask s of
        None \<Rightarrow> Exit (Returned currentTime) s
      | Some task \<Rightarrow>
          if \<not> (\<not> (enableSchedulerDebugging \<and> isSchedulerPaused s))
          then Exit (Returned currentTime) s
          else
            (let (break, s1) = shouldBreak hasTimeRemaining currentTime task s
             in if break then Exit (Returned currentTime) s1
                else
                  (case callback (store s1 ! task) of
                     Some cb \<Rightarrow>
                       (let (r, s2) = run_fn cb (beforeCallback task currentTime s1)
                        in case r of
                             Thrown \<Rightarrow> Exit Thrown s2
                           | Returned continuationCallback \<Rightarrow>
                               (let (currentTime', s3) = afterCallback task continuationCallback s2
                                in Again currentTime' (s3\<lparr>currentTask := peek (taskQueue s3)\<rparr>)))
                   | None \<Rightarrow>
                       (let s2 = s1\<lparr>taskQueue := snd (pop (store s1) (taskQueue s1))\<rparr>
                        in Again currentTime (s2\<lparr>currentTask := peek (taskQueue s2)\<rparr>)))))"

partial_function (option) workLoop_while ::
  "bool \<Rightarrow> int \<Rightarrow> Scheduler \<Rightarrow> (int completion \<times> Scheduler) option" where
  "workLoop_while hasTimeRemaining currentTime s =
     (case workLoop_iteration hasTimeRemaining currentTime s of
        Exit r s1 \<Rightarrow> Some (r, s1)
      | Again currentTime' s1 \<Rightarrow> workLoop_while hasTimeRemaining currentTime' s1)"

declare workLoop_while.simps [code]

definition workLoop ::
  "bool \<Rightarrow> int \<Rightarrow> Scheduler \<Rightarrow> (bool completion \<times> Scheduler) option" where
  "workLoop hasTimeRemaining initialTime s =
     (let currentTime = initialTime;
          s1 = advanceTimers currentTime s;
          s2 = s1\<lparr>currentTask := peek (taskQueue s1)\<rparr>
      in case workLoop_while hasTimeRemaining currentTime s2 of
           None \<Rightarrow> None
         | Some (r, s3) \<Rightarrow>
             (case r of
                Thrown \<Rightarrow> Some (Thrown, s3)
              | Returned currentTime' \<Rightarrow>
                  (if currentTask s3 \<noteq> None then Some (Returned True, s3)
                   else
                     (case peek (timerQueue s3) of
                        Some firstTimer \<Rightarrow>
                          Some (Returned False,
                            requestHostTimeout (startTime (store s3 ! firstTimer) - Finite currentTime') s3)
                      | None \<Rightarrow> Some (Returned False, s3)))))"

definition flushWork ::
  "bool \<Rightarrow> int \<Rightarrow> Scheduler \<Rightarrow> (bool completion \<times> Scheduler) option" where
  "flushWork hasTimeRemaining initialTime s =
     (let s1 = s\<lparr>isHostCallbackScheduled := False\<rparr>;
          s2 = (if isHostTimeoutScheduled s1
                then cancelHostTimeout (s1\<lparr>isHostTimeoutScheduled := False\<rparr>)
                else s1);
          s3 = s2\<lparr>isPerformingWork := True\<rparr>;
          previousPriorityLevel = currentPriorityLevel s3
      in case workLoop hasTimeRemaining initialTime s3 of
           None \<Rightarrow> None
         | Some (r, s4) \<Rightarrow>
             Some (r, s4\<lparr>currentTask := None,
                         currentPriorityLevel := previousPriorityLevel,
                         isPerformingWork := False\<rparr>))"

definition performWorkUntilDeadline :: "Scheduler \<Rightarrow> (unit completion \<times> Scheduler) option" where
  "performWorkUntilDeadline s =
     (case scheduledHostCallback s of
        Some FlushWork \<Rightarrow>
          (let (currentTime, s1) = getCurrentTime s;
               s2 = s1\<lparr>startTime_slice := currentTime\<rparr>;
               hasTimeRemaining = True
           in case flushWork hasTimeRemaining currentTime s2 of
                None \<Rightarrow> None
              | Some (r, s3) \<Rightarrow>
                  (case r of
                     Thrown \<Rightarrow> Some (Thrown, schedulePerformWorkUntilDeadline s3)
                   | Returned hasMoreWork \<Rightarrow>
                       (let s4 = (if hasMoreWork then schedulePerformWorkUntilDeadline s3
                                  else s3\<lparr>isMessageLoopRunning := False,
                                          scheduledHostCallback := None\<rparr>)
                        in Some (Returned (), s4\<lparr>needsPaint := False\<rparr>))))
      | None \<Rightarrow> Some (Returned (), s\<lparr>isMessageLoopRunning := False, needsPaint := False\<rparr>))"

section \<open>The host's event loop\<close>

text \<open>
  What the host does, one event at a time: it delivers a posted message (which runs
  \<open>performWorkUntilDeadline\<close>), it fires a timeout that is set (which runs
  \<open>handleTimeout(getCurrentTime())\<close>), or it runs user code that calls the API from
  outside the work loop. An exception that reaches the host ends the event only. A
  message or a timeout that is not there does nothing.
\<close>

datatype hostEvent = MessageEvent | TimeoutEvent int | UserEvent action

definition hostStep :: "hostEvent \<Rightarrow> Scheduler \<Rightarrow> Scheduler option" where
  "hostStep e s =
     (case e of
        MessageEvent \<Rightarrow>
          if hostMessages s = 0 then Some s
          else map_option snd (performWorkUntilDeadline (s\<lparr>hostMessages := hostMessages s - 1\<rparr>))
      | TimeoutEvent i \<Rightarrow>
          if i \<in> set (map fst (hostTimers s)) then
            (let s1 = s\<lparr>hostTimers := filter (\<lambda>(j, ms). j \<noteq> i) (hostTimers s)\<rparr>;
                 (currentTime, s2) = getCurrentTime s1
             in Some (handleTimeout currentTime s2))
          else Some s
      | UserEvent a \<Rightarrow> Some (snd (do_action a s)))"

fun run :: "hostEvent list \<Rightarrow> Scheduler \<Rightarrow> Scheduler option" where
  "run [] s = Some s"
| "run (e # es) s = (case hostStep e s of None \<Rightarrow> None | Some s1 \<Rightarrow> run es s1)"

section \<open>Submitting a task\<close>

lemma snd_getCurrentTime:
  "snd (getCurrentTime s) = s\<lparr>clock := fst (getCurrentTime s), elapse := tl (elapse s)\<rparr>"
  by (cases "elapse s") (simp_all add: getCurrentTime_def)

lemma siftUp_set [simp]: "k < length h \<Longrightarrow> h ! k = node \<Longrightarrow> set (siftUp st h node k) = set h"
  using siftUp_mset[of k h node st] by (metis set_mset_mset)

lemma push_set [simp]: "set (push st h t) = insert t (set h)"
  using push_mset[of st h t] by (metis set_mset_mset set_mset_add_mset_insert union_mset_add_mset_right add.right_neutral)

lemma push_length [simp]: "length (push st h t) = Suc (length h)"
  by (simp add: push_def)

definition the_timeout :: "int \<Rightarrow> int" where
  "the_timeout level =
     (if level = ImmediatePriority then - 1
      else if level = UserBlockingPriority then 250
      else if level = NormalPriority then 5000
      else if level = LowPriority then 10000
      else if level = IdlePriority then 1073741823
      else 5000)"

lemma timeoutOf_values: "timeoutOf level = the_timeout level"
  by (simp add: timeoutOf_def the_timeout_def IMMEDIATE_PRIORITY_TIMEOUT_def USER_BLOCKING_PRIORITY_TIMEOUT_def
      NORMAL_PRIORITY_TIMEOUT_def LOW_PRIORITY_TIMEOUT_def IDLE_PRIORITY_TIMEOUT_def maxSigned31BitInt_def
      ImmediatePriority_def UserBlockingPriority_def NormalPriority_def LowPriority_def IdlePriority_def)

definition startTimeOf :: "int \<Rightarrow> options \<Rightarrow> number" where
  "startTimeOf now opts =
     (case opts of
        OptionsObject (Some delay) \<Rightarrow> if delay > 0 then Finite now + delay else Finite now
      | _ \<Rightarrow> Finite now)"

lemma scheduleCallback_store:
  "store (snd (unstable_scheduleCallback level cb opts s)) =
     store s @ [\<lparr>id_task = taskIdCounter s, callback = Some cb, priorityLevel = level,
        startTime = startTimeOf (fst (getCurrentTime s)) opts,
        expirationTime = startTimeOf (fst (getCurrentTime s)) opts + Finite (timeoutOf level),
        sortIndex = (if startTimeOf (fst (getCurrentTime s)) opts > Finite (fst (getCurrentTime s))
                     then startTimeOf (fst (getCurrentTime s)) opts
                     else startTimeOf (fst (getCurrentTime s)) opts + Finite (timeoutOf level))\<rparr>]"
  by (simp add: unstable_scheduleCallback_def Let_def split_def snd_getCurrentTime startTimeOf_def
      requestHostTimeout_def cancelHostTimeout_def requestHostCallback_def
      schedulePerformWorkUntilDeadline_def)

lemma scheduleCallback_fst:
  "fst (unstable_scheduleCallback level cb opts s) = length (store s)"
  by (simp add: unstable_scheduleCallback_def Let_def split_def snd_getCurrentTime)

text \<open>Example data: a callback that makes no call and returns no function.\<close>

definition noop :: fn where "noop = Fn [] ReturnValue"

text \<open>
  Claim C7. The task that \<open>unstable_scheduleCallback\<close> creates has
  \<open>expirationTime = startTime + timeout\<close>, the timeout being -1 for Immediate, 250 for
  UserBlocking, 5000 for Normal, 10000 for Low, 1073741823 for Idle and 5000 for every
  other priority value.
\<close>

theorem scheduleCallback_expirationTime:
  assumes "unstable_scheduleCallback level cb opts s = (task, s')"
  shows "expirationTime (store s' ! task) =
           startTime (store s' ! task) +
             Finite (if level = ImmediatePriority then - 1
                     else if level = UserBlockingPriority then 250
                     else if level = NormalPriority then 5000
                     else if level = LowPriority then 10000
                     else if level = IdlePriority then 1073741823
                     else 5000) \<and>
         priorityLevel (store s' ! task) = level \<and>
         task = length (store s) \<and> length (store s') = Suc (length (store s))"
proof -
  have t: "task = length (store s)" and s': "s' = snd (unstable_scheduleCallback level cb opts s)"
    using assms scheduleCallback_fst[of level cb opts s] by simp_all
  show ?thesis
    unfolding s' t scheduleCallback_store
    by (simp add: timeoutOf_values the_timeout_def)
qed

theorem scheduleCallback_expirationTime_witness:
  "expirationTime (store (snd (unstable_scheduleCallback IdlePriority noop OptionsAbsent (initial 7 [] None))) ! 0)
     = Finite 1073741830 \<and>
   expirationTime (store (snd (unstable_scheduleCallback 42 noop (OptionsObject (Some (Finite 10))) (initial 7 [] None))) ! 0)
     = Finite 5017"
proof -
  have a: "fst (unstable_scheduleCallback IdlePriority noop OptionsAbsent (initial 7 [] None)) = 0"
    and b: "fst (unstable_scheduleCallback 42 noop (OptionsObject (Some (Finite 10))) (initial 7 [] None)) = 0"
    by (simp_all add: scheduleCallback_fst initial_def)
  have s1: "startTime (store (snd (unstable_scheduleCallback IdlePriority noop OptionsAbsent (initial 7 [] None))) ! 0) = Finite 7"
    and s2: "startTime (store (snd (unstable_scheduleCallback 42 noop (OptionsObject (Some (Finite 10))) (initial 7 [] None))) ! 0) = Finite 17"
    by (simp_all add: scheduleCallback_store initial_def startTimeOf_def getCurrentTime_def)
  from scheduleCallback_expirationTime[of IdlePriority noop OptionsAbsent "initial 7 [] None" 0
      "snd (unstable_scheduleCallback IdlePriority noop OptionsAbsent (initial 7 [] None))"]
    scheduleCallback_expirationTime[of 42 noop "OptionsObject (Some (Finite 10))" "initial 7 [] None" 0
      "snd (unstable_scheduleCallback 42 noop (OptionsObject (Some (Finite 10))) (initial 7 [] None))"]
    a b s1 s2
  show ?thesis
    by (simp add: prod_eq_iff ImmediatePriority_def UserBlockingPriority_def NormalPriority_def
        LowPriority_def IdlePriority_def)
qed

text \<open>
  Claim C9. \<open>forceFrameRate(fps)\<close> with \<open>fps < 0\<close> or \<open>fps > 125\<close> logs an error and
  changes nothing else, so \<open>frameInterval\<close> stays; with \<open>0 < fps \<le> 125\<close> it sets
  \<open>frameInterval\<close> to \<open>floor (1000 / fps)\<close>; with \<open>fps = 0\<close> it sets it to 5.
\<close>

theorem forceFrameRate_cases:
  "(fps < 0 \<or> fps > 125 \<longrightarrow>
      forceFrameRate fps s = s\<lparr>hostCalls := hostCalls s @ [ConsoleError]\<rparr> \<and>
      frameInterval (forceFrameRate fps s) = frameInterval s) \<and>
   (0 < fps \<and> fps \<le> 125 \<longrightarrow>
      forceFrameRate fps s = s\<lparr>frameInterval := \<lfloor>1000 / fps\<rfloor>\<rparr>) \<and>
   (fps = 0 \<longrightarrow> forceFrameRate fps s = s\<lparr>frameInterval := 5\<rparr>)"
  by (simp add: forceFrameRate_def frameYieldMs_def)

theorem forceFrameRate_cases_witness:
  "frameInterval (forceFrameRate 126 (initial 0 [] None)) = 5 \<and>
   hostCalls (forceFrameRate (- 1) (initial 0 [] None)) = [ConsoleError] \<and>
   frameInterval (forceFrameRate 60 (initial 0 [] None)) = 16 \<and>
   frameInterval (forceFrameRate 0 (forceFrameRate 60 (initial 0 [] None))) = 5"
proof -
  let ?i = "initial 0 [] None"
  have f: "\<lfloor>1000 / (60 :: rat)\<rfloor> = 16" by (simp add: floor_eq_iff)
  have w1: "frameInterval (forceFrameRate 126 ?i) = frameInterval ?i"
    using forceFrameRate_cases[of 126 ?i] by simp
  have w2: "forceFrameRate (- 1) ?i = ?i\<lparr>hostCalls := hostCalls ?i @ [ConsoleError]\<rparr>"
    using forceFrameRate_cases[of "- 1" ?i] by simp
  have w3: "forceFrameRate 60 ?i = ?i\<lparr>frameInterval := 16\<rparr>"
    using forceFrameRate_cases[of 60 ?i] f by simp
  have w4: "forceFrameRate 0 (forceFrameRate 60 ?i) = (forceFrameRate 60 ?i)\<lparr>frameInterval := 5\<rparr>"
    using forceFrameRate_cases[of 0 "forceFrameRate 60 ?i"] by simp
  show ?thesis unfolding w1 w2 w4 unfolding w3 by (simp add: initial_def frameYieldMs_def)
qed

lemma peek_None_iff: "(peek h = None) = (h = [])"
  by (simp add: peek_def)

section \<open>The host timer of the pending queue\<close>

text \<open>
  Claim C6 on the code. \<open>unstable_scheduleCallback\<close> cancels the host timer under
  the latch \<open>isHostTimeoutScheduled\<close> only, and \<open>workLoop\<close> and \<open>handleTimeout\<close>
  request their timer without setting the latch.
  First run: a task with delay 100, a ready task and one run of the work loop, which
  requests timer 2 on its way out and leaves the latch unset; a task with delay 50 is
  then submitted, becomes the pending head while the ready queue is empty, and timer 3 is
  requested with no timer cancelled: timers 2 and 3 are both set, and \<open>taskTimeoutID\<close>
  is 3, so that no later call cancels timer 2.
  Second run: tasks with delays 100 and 200, the first cancelled, the timer fired at time
  100: \<open>handleTimeout\<close> requests timer 2 for the second task and leaves the latch unset;
  a task with delay 50 submitted then gets timer 3 beside timer 2.
  Third run: the timer that \<open>unstable_scheduleCallback\<close> requested itself (timer 1) is
  cancelled by the next submission that becomes the pending head.
\<close>

theorem scheduleCallback_keeps_workLoop_timer:
  "map_option (\<lambda>s. (taskQueue s, hostTimers s, isHostTimeoutScheduled s))
     (run [UserEvent (ScheduleCallback NormalPriority noop (OptionsObject (Some (Finite 100)))),
           UserEvent (ScheduleCallback NormalPriority noop OptionsAbsent),
           MessageEvent] (initial 0 [] None))
     = Some ([], [(2, Finite 100)], False) \<and>
   map_option (\<lambda>s. (taskQueue s, peek (timerQueue s), hostTimers s, taskTimeoutID s,
                     filter (\<lambda>c. c = ClearTimeout 2) (hostCalls s)))
     (run [UserEvent (ScheduleCallback NormalPriority noop (OptionsObject (Some (Finite 100)))),
           UserEvent (ScheduleCallback NormalPriority noop OptionsAbsent),
           MessageEvent,
           UserEvent (ScheduleCallback NormalPriority noop (OptionsObject (Some (Finite 50))))]
        (initial 0 [] None))
     = Some ([], Some 2, [(2, Finite 100), (3, Finite 50)], 3, []) \<and>
   map_option (\<lambda>s. (taskQueue s, hostTimers s, isHostTimeoutScheduled s))
     (run [UserEvent (ScheduleCallback NormalPriority noop (OptionsObject (Some (Finite 100)))),
           UserEvent (ScheduleCallback NormalPriority noop (OptionsObject (Some (Finite 200)))),
           UserEvent (CancelCallback 0),
           TimeoutEvent 1] (initial 0 [0, 0, 100] None))
     = Some ([], [(2, Finite 100)], False) \<and>
   map_option (\<lambda>s. (taskQueue s, peek (timerQueue s), hostTimers s, taskTimeoutID s))
     (run [UserEvent (ScheduleCallback NormalPriority noop (OptionsObject (Some (Finite 100)))),
           UserEvent (ScheduleCallback NormalPriority noop (OptionsObject (Some (Finite 200)))),
           UserEvent (CancelCallback 0),
           TimeoutEvent 1,
           UserEvent (ScheduleCallback NormalPriority noop (OptionsObject (Some (Finite 50))))]
        (initial 0 [0, 0, 100] None))
     = Some ([], Some 2, [(2, Finite 100), (3, Finite 50)], 3) \<and>
   map_option (\<lambda>s. (peek (timerQueue s), hostTimers s, hostCalls s))
     (run [UserEvent (ScheduleCallback NormalPriority noop (OptionsObject (Some (Finite 100)))),
           UserEvent (ScheduleCallback NormalPriority noop (OptionsObject (Some (Finite 50))))]
        (initial 0 [] None))
     = Some (Some 1, [(2, Finite 50)],
             [SetTimeout 1 (Finite 100), ClearTimeout 1, SetTimeout 2 (Finite 50)])"
  by code_simp

section \<open>Sort keys that are not finite\<close>

text \<open>
  The order that the queues are to follow: \<open>a\<close> is before \<open>b\<close> when its sort index is
  smaller, or the sort indices are equal and its id is smaller.
\<close>

definition before :: "Task list \<Rightarrow> nat \<Rightarrow> nat \<Rightarrow> bool" where
  "before st a b =
     (sortIndex (st ! a) < sortIndex (st ! b) \<or>
      sortIndex (st ! a) = sortIndex (st ! b) \<and> id_task (st ! a) < id_task (st ! b))"

definition foreverDelayed :: "hostEvent list" where
  "foreverDelayed =
     replicate 3 (UserEvent (ScheduleCallback NormalPriority noop (OptionsObject (Some Infinity))))"

text \<open>
  Claim C3 on the code. Three tasks submitted with \<open>delay: Infinity\<close> have the sort
  index \<open>Infinity\<close> and the ids 1, 2 and 3, and the pending queue holds them in this
  order, which is a heap for the order above. For two of them \<open>compare\<close> returns
  \<open>NaN\<close>, the difference of the sort indices, and does not look at the ids: neither is
  smaller than the other for \<open>siftUp\<close> and \<open>siftDown\<close>. \<open>pop\<close> then moves the last
  task to the root and leaves it there, above the task with id 2, which is before it:
  the array is no heap any more and \<open>peek\<close> does not return the minimum. The scheduler
  gets there when the first task is cancelled and the work loop runs.
\<close>

theorem pop_infinite_keys_loses_order:
  "map_option (\<lambda>s. (timerQueue s, map sortIndex (store s), map id_task (store s)))
     (run foreverDelayed (initial 0 [] None))
     = Some ([0, 1, 2], [Infinity, Infinity, Infinity], [1, 2, 3]) \<and>
   map_option (\<lambda>s. (compare (store s) 1 2, compare (store s) 1 2 < 0, compare (store s) 2 1 < 0,
                     compare (store s) 2 1 > 0, before (store s) 1 2, before (store s) 2 1))
     (run foreverDelayed (initial 0 [] None))
     = Some (NaN, False, False, False, True, False) \<and>
   map_option (\<lambda>s. (peek (timerQueue s), pop (store s) (timerQueue s)))
     (run foreverDelayed (initial 0 [] None))
     = Some (Some 0, (Some 0, [2, 1])) \<and>
   map_option (\<lambda>s. (timerQueue s, peek (timerQueue s), before (store s) 1 2))
     (run (foreverDelayed @
           [UserEvent (CancelCallback 0),
            UserEvent (ScheduleCallback NormalPriority noop OptionsAbsent),
            MessageEvent]) (initial 0 [] None))
     = Some ([2, 1], Some 2, True)"
  by code_simp

section \<open>Properties of every call of user code\<close>

text \<open>
  An induction principle: a reflexive and transitive relation between the state before
  and the state after that every function of the API keeps is kept by every user
  function.
\<close>

lemma user_code_induct:
  assumes R_refl: "\<And>s. R s s"
    and R_trans: "\<And>s t u. R s t \<Longrightarrow> R t u \<Longrightarrow> R s u"
    and sched: "\<And>level cb opts s. R s (snd (unstable_scheduleCallback level cb opts s))"
    and cancel: "\<And>task s. R s (unstable_cancelCallback task s)"
    and pause: "\<And>s. R s (unstable_pauseExecution s)"
    and continue: "\<And>s. R s (unstable_continueExecution s)"
    and yield: "\<And>s. R s (snd (shouldYieldToHost s))"
    and paint: "\<And>s. R s (requestPaint s)"
    and now: "\<And>s. R s (snd (getCurrentTime s))"
    and rate: "\<And>fps s. R s (forceFrameRate fps s)"
    and rwp: "\<And>level h s. (\<And>t. R t (snd (h t :: retval completion \<times> Scheduler))) \<Longrightarrow>
                R s (snd (unstable_runWithPriority level h s))"
    and nxt: "\<And>h s. (\<And>t. R t (snd (h t :: retval completion \<times> Scheduler))) \<Longrightarrow>
                R s (snd (unstable_next h s))"
    and wrp: "\<And>parent h s. (\<And>t. R t (snd (h t :: retval completion \<times> Scheduler))) \<Longrightarrow>
                R s (snd (wrapped parent h s))"
  shows "R s (snd (run_fn f s))"
    and "R s (snd (run_actions as s))"
    and "R s (snd (do_action a s))"
proof (induction f s and as s and a s rule: run_fn_run_actions_do_action.induct)
  case (1 body res s)
  then show ?case by (simp add: split_def Let_def)
next
  case (2 s)
  show ?case by (simp add: R_refl)
next
  case (3 a as s)
  show ?case
  proof (cases "fst (do_action a s)")
    case (Returned u)
    have "R (snd (do_action a s)) (snd (run_actions as (snd (do_action a s))))"
      by (rule "3.IH"(2)[OF HOL.refl prod.collapse Returned])
    with "3.IH"(1) have "R s (snd (run_actions as (snd (do_action a s))))" by (rule R_trans)
    then show ?thesis using Returned by (simp add: split_def Let_def)
  next
    case Thrown
    then show ?thesis using "3.IH"(1) by (simp add: split_def Let_def)
  qed
next
  case (6 level f s)
  show ?case using rwp[OF "6.IH"] by (simp add: split_def Let_def)
next
  case (7 f s)
  show ?case using nxt[OF "7.IH"] by (simp add: split_def Let_def)
next
  case (9 parent f s)
  show ?case using wrp[OF "9.IH"] by (simp add: split_def Let_def)
qed (simp_all add: R_refl sched cancel pause continue yield paint now rate)

lemma getCurrentTime_currentPriorityLevel [simp]:
  "currentPriorityLevel (snd (getCurrentTime s)) = currentPriorityLevel s"
  by (simp add: snd_getCurrentTime)

lemma scheduleCallback_currentPriorityLevel [simp]:
  "currentPriorityLevel (snd (unstable_scheduleCallback level cb opts s)) = currentPriorityLevel s"
  by (simp add: unstable_scheduleCallback_def Let_def split_def snd_getCurrentTime
      requestHostTimeout_def cancelHostTimeout_def requestHostCallback_def
      schedulePerformWorkUntilDeadline_def)

lemma api_currentPriorityLevel [simp]:
  "currentPriorityLevel (unstable_cancelCallback task s) = currentPriorityLevel s"
  "currentPriorityLevel (unstable_pauseExecution s) = currentPriorityLevel s"
  "currentPriorityLevel (unstable_continueExecution s) = currentPriorityLevel s"
  "currentPriorityLevel (snd (shouldYieldToHost s)) = currentPriorityLevel s"
  "currentPriorityLevel (requestPaint s) = currentPriorityLevel s"
  "currentPriorityLevel (forceFrameRate fps s) = currentPriorityLevel s"
  by (simp_all add: unstable_cancelCallback_def unstable_pauseExecution_def
      unstable_continueExecution_def shouldYieldToHost_def requestPaint_def forceFrameRate_def
      requestHostCallback_def schedulePerformWorkUntilDeadline_def Let_def split_def
      snd_getCurrentTime split: option.splits)

lemma runWithPriority_currentPriorityLevel [simp]:
  "currentPriorityLevel (snd (unstable_runWithPriority level h s)) = currentPriorityLevel s"
  "currentPriorityLevel (snd (unstable_next h s)) = currentPriorityLevel s"
  "currentPriorityLevel (snd (wrapped parent h s)) = currentPriorityLevel s"
  by (simp_all add: unstable_runWithPriority_def unstable_next_def wrapped_def Let_def split_def)

lemma do_action_currentPriorityLevel:
  "currentPriorityLevel (snd (do_action a s)) = currentPriorityLevel s"
  by (rule user_code_induct(3)[where R = "\<lambda>s s'. currentPriorityLevel s' = currentPriorityLevel s"])
     simp_all

text \<open>
  Claim C8. Every call of the public API, with whatever user code it runs and also when
  it throws, leaves \<open>currentPriorityLevel\<close> as it was; \<open>unstable_runWithPriority\<close>
  runs its handler with the level (Normal for a level outside the five), hands on the
  handler's result and restores the level; \<open>flushWork\<close>, when it ends, has restored
  the level.
\<close>

theorem ambient_priority_restored:
  "currentPriorityLevel (snd (do_action a s)) = currentPriorityLevel s \<and>
   unstable_runWithPriority level eventHandler s =
     (fst (eventHandler (s\<lparr>currentPriorityLevel :=
             (if level = ImmediatePriority \<or> level = UserBlockingPriority \<or>
                 level = NormalPriority \<or> level = LowPriority \<or> level = IdlePriority
              then level else NormalPriority)\<rparr>)),
      (snd (eventHandler (s\<lparr>currentPriorityLevel :=
             (if level = ImmediatePriority \<or> level = UserBlockingPriority \<or>
                 level = NormalPriority \<or> level = LowPriority \<or> level = IdlePriority
              then level else NormalPriority)\<rparr>)))
        \<lparr>currentPriorityLevel := currentPriorityLevel s\<rparr>) \<and>
   (\<forall>r s'. flushWork hasTimeRemaining initialTime s = Some (r, s') \<longrightarrow>
      currentPriorityLevel s' = currentPriorityLevel s)"
proof -
  have "currentPriorityLevel s' = currentPriorityLevel s"
    if "flushWork hasTimeRemaining initialTime s = Some (r, s')" for r s'
    using that
    by (auto simp: flushWork_def Let_def cancelHostTimeout_def split: option.splits prod.splits if_splits)
  then show ?thesis
    by (simp add: do_action_currentPriorityLevel unstable_runWithPriority_def Let_def split_def)
qed

theorem ambient_priority_restored_witness:
  "fst (do_action (RunWithPriority ImmediatePriority (Fn [] Throw)) (initial 0 [] None)) = Thrown \<and>
   currentPriorityLevel (snd (do_action (RunWithPriority ImmediatePriority (Fn [] Throw))
      (initial 0 [] None))) = NormalPriority \<and>
   map_option (\<lambda>(r, s'). (r, currentPriorityLevel s'))
     (flushWork True 0 (snd (unstable_scheduleCallback UserBlockingPriority (Fn [] Throw)
        OptionsAbsent (initial 0 [] None)))) = Some (Thrown, NormalPriority)"
proof -
  let ?i = "initial 0 [] None"
  let ?s = "snd (unstable_scheduleCallback UserBlockingPriority (Fn [] Throw) OptionsAbsent ?i)"
  note inst1 = ambient_priority_restored[of "RunWithPriority ImmediatePriority (Fn [] Throw)" ?i
      0 "\<lambda>s. (Thrown :: unit completion, s)" True 0]
  note inst2 = ambient_priority_restored[of GetCurrentPriorityLevel ?s
      0 "\<lambda>s. (Thrown :: unit completion, s)" True 0]
  have a: "fst (do_action (RunWithPriority ImmediatePriority (Fn [] Throw)) ?i) = Thrown"
    by code_simp
  have b: "currentPriorityLevel (snd (do_action (RunWithPriority ImmediatePriority (Fn [] Throw)) ?i))
      = NormalPriority"
    using inst1 by (simp add: initial_def)
  have c: "map_option fst (flushWork True 0 ?s) = Some Thrown"
    by code_simp
  then obtain s' where f: "flushWork True 0 ?s = Some (Thrown, s')" by (auto simp: map_option_case split: option.splits)
  have "currentPriorityLevel s' = currentPriorityLevel ?s" using inst2 f by blast
  then have "currentPriorityLevel s' = NormalPriority" by (simp add: initial_def)
  with a b f show ?thesis by simp
qed

section \<open>A shorter form of \<open>unstable_scheduleCallback\<close>\<close>

text \<open>
  The same function with the record it creates and the two requests to the host named:
  \<open>taskRecord\<close> is the new task as it stands when it is pushed, \<open>armTimeout\<close> is
  the body of the test "all tasks are delayed, and this is the task with the earliest
  delay", \<open>armCallback\<close> the body of the test "schedule a host callback, if needed".
\<close>

definition taskRecord :: "int \<Rightarrow> fn \<Rightarrow> int \<Rightarrow> number \<Rightarrow> int \<Rightarrow> Task" where
  "taskRecord level cb now start counter =
     \<lparr>id_task = counter, callback = Some cb, priorityLevel = level, startTime = start,
      expirationTime = start + Finite (timeoutOf level),
      sortIndex = (if start > Finite now then start else start + Finite (timeoutOf level))\<rparr>"

definition armTimeout :: "number \<Rightarrow> Scheduler \<Rightarrow> Scheduler" where
  "armTimeout ms s =
     requestHostTimeout ms
       (if isHostTimeoutScheduled s then cancelHostTimeout s
        else s\<lparr>isHostTimeoutScheduled := True\<rparr>)"

definition armCallback :: "Scheduler \<Rightarrow> Scheduler" where
  "armCallback s = requestHostCallback FlushWork (s\<lparr>isHostCallbackScheduled := True\<rparr>)"

lemma scheduleCallback_unfold:
  "unstable_scheduleCallback level cb opts s =
     (let now = fst (getCurrentTime s);
          s1 = snd (getCurrentTime s);
          start = startTimeOf now opts;
          newTask = length (store s1);
          st = store s1 @ [taskRecord level cb now start (taskIdCounter s1)]
      in (newTask,
          if start > Finite now then
            (let s4 = s1\<lparr>taskIdCounter := taskIdCounter s1 + 1, store := st,
                         timerQueue := push st (timerQueue s1) newTask\<rparr>
             in if peek (taskQueue s1) = None \<and> Some newTask = peek (timerQueue s4)
                then armTimeout (start - Finite now) s4 else s4)
          else
            (let s4 = s1\<lparr>taskIdCounter := taskIdCounter s1 + 1, store := st,
                         taskQueue := push st (taskQueue s1) newTask\<rparr>
             in if \<not> isHostCallbackScheduled s1 \<and> \<not> isPerformingWork s1
                then armCallback s4 else s4)))"
  by (simp add: unstable_scheduleCallback_def Let_def split_def startTimeOf_def[symmetric]
      taskRecord_def armTimeout_def armCallback_def)

section \<open>The pause latch\<close>

text \<open>
  No function reads \<open>isSchedulerPaused\<close> but the loop condition, under
  \<open>enableSchedulerDebugging\<close>; every function but the two that assign it commutes
  with an assignment to it.
\<close>

lemma pause_out [simp]:
  "s\<lparr>isSchedulerPaused := b, taskQueue := x1\<rparr> = s\<lparr>taskQueue := x1, isSchedulerPaused := b\<rparr>"
  "s\<lparr>isSchedulerPaused := b, timerQueue := x2\<rparr> = s\<lparr>timerQueue := x2, isSchedulerPaused := b\<rparr>"
  "s\<lparr>isSchedulerPaused := b, taskIdCounter := x3\<rparr> = s\<lparr>taskIdCounter := x3, isSchedulerPaused := b\<rparr>"
  "s\<lparr>isSchedulerPaused := b, currentTask := x4\<rparr> = s\<lparr>currentTask := x4, isSchedulerPaused := b\<rparr>"
  "s\<lparr>isSchedulerPaused := b, currentPriorityLevel := x5\<rparr> = s\<lparr>currentPriorityLevel := x5, isSchedulerPaused := b\<rparr>"
  "s\<lparr>isSchedulerPaused := b, isPerformingWork := x6\<rparr> = s\<lparr>isPerformingWork := x6, isSchedulerPaused := b\<rparr>"
  "s\<lparr>isSchedulerPaused := b, isHostCallbackScheduled := x7\<rparr> = s\<lparr>isHostCallbackScheduled := x7, isSchedulerPaused := b\<rparr>"
  "s\<lparr>isSchedulerPaused := b, isHostTimeoutScheduled := x8\<rparr> = s\<lparr>isHostTimeoutScheduled := x8, isSchedulerPaused := b\<rparr>"
  "s\<lparr>isSchedulerPaused := b, isMessageLoopRunning := x9\<rparr> = s\<lparr>isMessageLoopRunning := x9, isSchedulerPaused := b\<rparr>"
  "s\<lparr>isSchedulerPaused := b, scheduledHostCallback := x10\<rparr> = s\<lparr>scheduledHostCallback := x10, isSchedulerPaused := b\<rparr>"
  "s\<lparr>isSchedulerPaused := b, taskTimeoutID := x11\<rparr> = s\<lparr>taskTimeoutID := x11, isSchedulerPaused := b\<rparr>"
  "s\<lparr>isSchedulerPaused := b, frameInterval := x12\<rparr> = s\<lparr>frameInterval := x12, isSchedulerPaused := b\<rparr>"
  "s\<lparr>isSchedulerPaused := b, startTime_slice := x13\<rparr> = s\<lparr>startTime_slice := x13, isSchedulerPaused := b\<rparr>"
  "s\<lparr>isSchedulerPaused := b, needsPaint := x14\<rparr> = s\<lparr>needsPaint := x14, isSchedulerPaused := b\<rparr>"
  "s\<lparr>isSchedulerPaused := b, store := x15\<rparr> = s\<lparr>store := x15, isSchedulerPaused := b\<rparr>"
  "s\<lparr>isSchedulerPaused := b, clock := x16\<rparr> = s\<lparr>clock := x16, isSchedulerPaused := b\<rparr>"
  "s\<lparr>isSchedulerPaused := b, elapse := x17\<rparr> = s\<lparr>elapse := x17, isSchedulerPaused := b\<rparr>"
  "s\<lparr>isSchedulerPaused := b, hostTimers := x18\<rparr> = s\<lparr>hostTimers := x18, isSchedulerPaused := b\<rparr>"
  "s\<lparr>isSchedulerPaused := b, nextTimeoutID := x19\<rparr> = s\<lparr>nextTimeoutID := x19, isSchedulerPaused := b\<rparr>"
  "s\<lparr>isSchedulerPaused := b, hostMessages := x20\<rparr> = s\<lparr>hostMessages := x20, isSchedulerPaused := b\<rparr>"
  "s\<lparr>isSchedulerPaused := b, hostInputPending := x21\<rparr> = s\<lparr>hostInputPending := x21, isSchedulerPaused := b\<rparr>"
  "s\<lparr>isSchedulerPaused := b, hostCalls := x22\<rparr> = s\<lparr>hostCalls := x22, isSchedulerPaused := b\<rparr>"
  "s\<lparr>isSchedulerPaused := b, trace := x23\<rparr> = s\<lparr>trace := x23, isSchedulerPaused := b\<rparr>"
  by simp_all

lemma getCurrentTime_paused [simp]:
  "fst (getCurrentTime (s\<lparr>isSchedulerPaused := b\<rparr>)) = fst (getCurrentTime s)"
  "snd (getCurrentTime (s\<lparr>isSchedulerPaused := b\<rparr>)) = (snd (getCurrentTime s))\<lparr>isSchedulerPaused := b\<rparr>"
  by (simp_all add: getCurrentTime_def split: list.splits)

lemma host_paused [simp]:
  "requestHostTimeout ms (s\<lparr>isSchedulerPaused := b\<rparr>) = (requestHostTimeout ms s)\<lparr>isSchedulerPaused := b\<rparr>"
  "cancelHostTimeout (s\<lparr>isSchedulerPaused := b\<rparr>) = (cancelHostTimeout s)\<lparr>isSchedulerPaused := b\<rparr>"
  "requestHostCallback cb (s\<lparr>isSchedulerPaused := b\<rparr>) = (requestHostCallback cb s)\<lparr>isSchedulerPaused := b\<rparr>"
  "schedulePerformWorkUntilDeadline (s\<lparr>isSchedulerPaused := b\<rparr>) = (schedulePerformWorkUntilDeadline s)\<lparr>isSchedulerPaused := b\<rparr>"
  by (simp_all add: requestHostTimeout_def cancelHostTimeout_def requestHostCallback_def
      schedulePerformWorkUntilDeadline_def Let_def)

lemma arm_paused [simp]:
  "armTimeout ms (s\<lparr>isSchedulerPaused := b\<rparr>) = (armTimeout ms s)\<lparr>isSchedulerPaused := b\<rparr>"
  "armCallback (s\<lparr>isSchedulerPaused := b\<rparr>) = (armCallback s)\<lparr>isSchedulerPaused := b\<rparr>"
  by (simp_all add: armTimeout_def armCallback_def)

lemma scheduleCallback_paused [simp]:
  "unstable_scheduleCallback level cb opts (s\<lparr>isSchedulerPaused := b\<rparr>) =
     (fst (unstable_scheduleCallback level cb opts s),
      (snd (unstable_scheduleCallback level cb opts s))\<lparr>isSchedulerPaused := b\<rparr>)"
  by (simp add: scheduleCallback_unfold Let_def)

lemma api_paused [simp]:
  "shouldYieldToHost (s\<lparr>isSchedulerPaused := b\<rparr>) =
     (fst (shouldYieldToHost s), (snd (shouldYieldToHost s))\<lparr>isSchedulerPaused := b\<rparr>)"
  "unstable_cancelCallback task (s\<lparr>isSchedulerPaused := b\<rparr>) = (unstable_cancelCallback task s)\<lparr>isSchedulerPaused := b\<rparr>"
  "requestPaint (s\<lparr>isSchedulerPaused := b\<rparr>) = (requestPaint s)\<lparr>isSchedulerPaused := b\<rparr>"
  "forceFrameRate fps (s\<lparr>isSchedulerPaused := b\<rparr>) = (forceFrameRate fps s)\<lparr>isSchedulerPaused := b\<rparr>"
  "unstable_pauseExecution (s\<lparr>isSchedulerPaused := b\<rparr>) = unstable_pauseExecution s"
  "unstable_continueExecution (s\<lparr>isSchedulerPaused := b\<rparr>) = unstable_continueExecution s"
  by (simp_all add: shouldYieldToHost_def Let_def split_def enableIsInputPending_def
      unstable_cancelCallback_def requestPaint_def forceFrameRate_def
      unstable_pauseExecution_def unstable_continueExecution_def)

definition paused_like :: "'a \<times> Scheduler \<Rightarrow> 'a \<times> Scheduler \<Rightarrow> bool" where
  "paused_like x y = (fst y = fst x \<and> (\<exists>b. snd y = (snd x)\<lparr>isSchedulerPaused := b\<rparr>))"

lemma paused_likeI: "y = (r, a\<lparr>isSchedulerPaused := b\<rparr>) \<Longrightarrow> x = (r, a) \<Longrightarrow> paused_like x y"
  by (auto simp: paused_like_def)

lemma self_paused [simp]: "\<exists>b. x = x\<lparr>isSchedulerPaused := b\<rparr>"
  by (rule exI[of _ "isSchedulerPaused x"]) simp

lemma paused_like_self: "paused_like x x"
  by (simp add: paused_like_def)

lemma bracket_paused:
  assumes h: "\<And>t b. paused_like (h t) (h (t\<lparr>isSchedulerPaused := b\<rparr>))"
  shows "paused_like (unstable_runWithPriority level h s)
            (unstable_runWithPriority level h (s\<lparr>isSchedulerPaused := b\<rparr>))"
    and "paused_like (unstable_next h s) (unstable_next h (s\<lparr>isSchedulerPaused := b\<rparr>))"
    and "paused_like (wrapped parent h s) (wrapped parent h (s\<lparr>isSchedulerPaused := b\<rparr>))"
proof -
  have k: "\<exists>b'. h (s\<lparr>currentPriorityLevel := l, isSchedulerPaused := b\<rparr>) =
      (fst (h (s\<lparr>currentPriorityLevel := l\<rparr>)),
       (snd (h (s\<lparr>currentPriorityLevel := l\<rparr>)))\<lparr>isSchedulerPaused := b'\<rparr>)" for l
    using h[of "s\<lparr>currentPriorityLevel := l\<rparr>" b]
    by (auto simp: paused_like_def prod_eq_iff)
  show "paused_like (unstable_runWithPriority level h s)
            (unstable_runWithPriority level h (s\<lparr>isSchedulerPaused := b\<rparr>))"
    using k[of "if level = ImmediatePriority \<or> level = UserBlockingPriority \<or>
                level = NormalPriority \<or> level = LowPriority \<or> level = IdlePriority
             then level else NormalPriority"]
    by (auto simp: paused_like_def unstable_runWithPriority_def Let_def split_def)
  show "paused_like (unstable_next h s) (unstable_next h (s\<lparr>isSchedulerPaused := b\<rparr>))"
    using k[of "if currentPriorityLevel s = ImmediatePriority \<or>
                currentPriorityLevel s = UserBlockingPriority \<or>
                currentPriorityLevel s = NormalPriority
             then NormalPriority else currentPriorityLevel s"]
    by (auto simp: paused_like_def unstable_next_def Let_def split_def)
  show "paused_like (wrapped parent h s) (wrapped parent h (s\<lparr>isSchedulerPaused := b\<rparr>))"
    using k[of parent]
    by (auto simp: paused_like_def wrapped_def Let_def split_def)
qed

lemma discard_paused:
  "paused_like x y \<Longrightarrow> paused_like (discard (fst x), snd x) (discard (fst y), snd y)"
  by (simp add: paused_like_def)

lemma user_code_paused:
  "\<forall>b. paused_like (run_fn f s) (run_fn f (s\<lparr>isSchedulerPaused := b\<rparr>))"
  "\<forall>b. paused_like (run_actions as s) (run_actions as (s\<lparr>isSchedulerPaused := b\<rparr>))"
  "\<forall>b. paused_like (do_action a s) (do_action a (s\<lparr>isSchedulerPaused := b\<rparr>))"
proof (induction f s and as s and a s rule: run_fn_run_actions_do_action.induct)
  case (1 body res s)
  show ?case
  proof
    fix b
    from 1 have "paused_like (run_actions body s) (run_actions body (s\<lparr>isSchedulerPaused := b\<rparr>))"
      by blast
    then show "paused_like (run_fn (Fn body res) s) (run_fn (Fn body res) (s\<lparr>isSchedulerPaused := b\<rparr>))"
      by (simp add: paused_like_def split_def Let_def)
  qed
next
  case (2 s)
  show ?case by (auto simp: paused_like_def)
next
  case (3 a as s)
  show ?case
  proof
    fix b
    let ?d = "do_action a s" and ?d' = "do_action a (s\<lparr>isSchedulerPaused := b\<rparr>)"
    have "paused_like ?d ?d'" using "3.IH"(1) by blast
    then obtain b' where d: "fst ?d' = fst ?d" "snd ?d' = (snd ?d)\<lparr>isSchedulerPaused := b'\<rparr>"
      by (auto simp: paused_like_def)
    show "paused_like (run_actions (a # as) s) (run_actions (a # as) (s\<lparr>isSchedulerPaused := b\<rparr>))"
    proof (cases "fst ?d")
      case (Returned u)
      have "paused_like (run_actions as (snd ?d)) (run_actions as ((snd ?d)\<lparr>isSchedulerPaused := b'\<rparr>))"
        using "3.IH"(2)[OF HOL.refl prod.collapse Returned] by blast
      then show ?thesis using Returned d by (simp add: split_def Let_def)
    next
      case Thrown
      then show ?thesis using d by (auto simp: paused_like_def split_def Let_def)
    qed
  qed
next
  case (6 level f s)
  have h: "\<And>t b. paused_like (run_fn f t) (run_fn f (t\<lparr>isSchedulerPaused := b\<rparr>))"
    using "6.IH" by blast
  show ?case using discard_paused[OF bracket_paused(1)[of "run_fn f", OF h]]
    by (simp add: split_def Let_def)
next
  case (7 f s)
  have h: "\<And>t b. paused_like (run_fn f t) (run_fn f (t\<lparr>isSchedulerPaused := b\<rparr>))"
    using "7.IH" by blast
  show ?case using discard_paused[OF bracket_paused(2)[of "run_fn f", OF h]]
    by (simp add: split_def Let_def)
next
  case (9 parent f s)
  have h: "\<And>t b. paused_like (run_fn f t) (run_fn f (t\<lparr>isSchedulerPaused := b\<rparr>))"
    using "9.IH" by blast
  show ?case using discard_paused[OF bracket_paused(3)[of "run_fn f", OF h]]
    by (simp add: split_def Let_def)
qed (auto simp: paused_like_def)

lemma advanceTimers_paused [simp]:
  "advanceTimers currentTime (s\<lparr>isSchedulerPaused := b\<rparr>) =
     (advanceTimers currentTime s)\<lparr>isSchedulerPaused := b\<rparr>"
proof (induction currentTime s rule: advanceTimers.induct)
  case (1 currentTime s)
  show ?case
  proof (cases "peek (timerQueue s)")
    case None
    then show ?thesis
      by (simp add: advanceTimers.simps[of currentTime s]
          advanceTimers.simps[of currentTime "s\<lparr>isSchedulerPaused := b\<rparr>"])
  next
    case (Some timer)
    show ?thesis
    proof (cases "callback (store s ! timer) = None")
      case True
      then show ?thesis using Some "1.IH"(1)[OF Some True]
        by (simp add: advanceTimers.simps[of currentTime s]
            advanceTimers.simps[of currentTime "s\<lparr>isSchedulerPaused := b\<rparr>"])
    next
      case False
      then obtain cb where cb: "callback (store s ! timer) = Some cb" by auto
      show ?thesis
      proof (cases "startTime (store s ! timer) \<le> Finite currentTime")
        case True
        then show ?thesis using Some cb "1.IH"(2)[OF Some False True HOL.refl HOL.refl HOL.refl]
          by (simp add: advanceTimers.simps[of currentTime s]
              advanceTimers.simps[of currentTime "s\<lparr>isSchedulerPaused := b\<rparr>"] Let_def)
      next
        case nm: False
        then show ?thesis using Some cb
          by (simp add: advanceTimers.simps[of currentTime s]
              advanceTimers.simps[of currentTime "s\<lparr>isSchedulerPaused := b\<rparr>"])
      qed
    qed
  qed
qed

fun step_paused :: "step \<Rightarrow> step \<Rightarrow> bool" where
  "step_paused (Exit r a) (Exit r' a') = (r' = r \<and> (\<exists>b. a' = a\<lparr>isSchedulerPaused := b\<rparr>))"
| "step_paused (Again t a) (Again t' a') = (t' = t \<and> (\<exists>b. a' = a\<lparr>isSchedulerPaused := b\<rparr>))"
| "step_paused _ _ = False"

lemma pieces_paused [simp]:
  "shouldBreak hasTimeRemaining currentTime task (s\<lparr>isSchedulerPaused := b\<rparr>) =
     (fst (shouldBreak hasTimeRemaining currentTime task s),
      (snd (shouldBreak hasTimeRemaining currentTime task s))\<lparr>isSchedulerPaused := b\<rparr>)"
  "beforeCallback task currentTime (s\<lparr>isSchedulerPaused := b\<rparr>) =
     (beforeCallback task currentTime s)\<lparr>isSchedulerPaused := b\<rparr>"
  "afterCallback task c (s\<lparr>isSchedulerPaused := b\<rparr>) =
     (fst (afterCallback task c s), (snd (afterCallback task c s))\<lparr>isSchedulerPaused := b\<rparr>)"
  by (simp_all add: shouldBreak_def beforeCallback_def afterCallback_def Let_def split_def
      split: retval.splits)

lemma workLoop_iteration_paused:
  "step_paused (workLoop_iteration hasTimeRemaining currentTime s)
     (workLoop_iteration hasTimeRemaining currentTime (s\<lparr>isSchedulerPaused := b\<rparr>))"
proof (cases "currentTask s")
  case None
  then show ?thesis by (auto simp add: workLoop_iteration_def)
next
  case (Some task)
  let ?y = "shouldBreak hasTimeRemaining currentTime task s"
  show ?thesis
  proof (cases "fst ?y")
    case True
    then show ?thesis using Some
      by (auto simp add: workLoop_iteration_def enableSchedulerDebugging_def split_def Let_def)
  next
    case noyield: False
    show ?thesis
    proof (cases "callback (store (snd ?y) ! task)")
      case None
      then show ?thesis using Some noyield
        by (auto simp add: workLoop_iteration_def enableSchedulerDebugging_def split_def Let_def)
    next
      case cbS: (Some cb)
      let ?s4 = "beforeCallback task currentTime (snd ?y)"
      have "paused_like (run_fn cb ?s4) (run_fn cb (?s4\<lparr>isSchedulerPaused := b\<rparr>))"
        using user_code_paused(1) by blast
      then obtain b' where r: "run_fn cb (?s4\<lparr>isSchedulerPaused := b\<rparr>) =
          (fst (run_fn cb ?s4), (snd (run_fn cb ?s4))\<lparr>isSchedulerPaused := b'\<rparr>)"
        by (auto simp: paused_like_def prod_eq_iff)
      show ?thesis
      proof (cases "fst (run_fn cb ?s4)")
        case (Returned c)
        then show ?thesis using Some noyield cbS r
          by (auto simp add: workLoop_iteration_def enableSchedulerDebugging_def split_def Let_def)
      next
        case Thrown
        then show ?thesis using Some noyield cbS r
          by (auto simp add: workLoop_iteration_def enableSchedulerDebugging_def split_def Let_def)
      qed
    qed
  qed
qed

lemmas workLoop_while_induct = workLoop_while.raw_induct[rotated 1, consumes 1, case_names step]

lemma workLoop_while_paused_aux:
  "workLoop_while hasTimeRemaining currentTime s = Some y \<Longrightarrow>
   \<forall>b. \<exists>b'. workLoop_while hasTimeRemaining currentTime (s\<lparr>isSchedulerPaused := b\<rparr>) =
          Some (fst y, (snd y)\<lparr>isSchedulerPaused := b'\<rparr>)"
proof (induction rule: workLoop_while_induct)
  case (step workLoop_while' hasTimeRemaining currentTime s y)
  show ?case
  proof
    fix b
    have sp: "step_paused (workLoop_iteration hasTimeRemaining currentTime s)
       (workLoop_iteration hasTimeRemaining currentTime (s\<lparr>isSchedulerPaused := b\<rparr>))"
      by (rule workLoop_iteration_paused)
    show "\<exists>b'. workLoop_while hasTimeRemaining currentTime (s\<lparr>isSchedulerPaused := b\<rparr>) =
          Some (fst y, (snd y)\<lparr>isSchedulerPaused := b'\<rparr>)"
    proof (cases "workLoop_iteration hasTimeRemaining currentTime s")
      case (Exit r a)
      then obtain b' where "workLoop_iteration hasTimeRemaining currentTime (s\<lparr>isSchedulerPaused := b\<rparr>)
          = Exit r (a\<lparr>isSchedulerPaused := b'\<rparr>)"
        using sp by (cases "workLoop_iteration hasTimeRemaining currentTime (s\<lparr>isSchedulerPaused := b\<rparr>)") auto
      then show ?thesis using Exit step(2)
        by (subst workLoop_while.simps) auto
    next
      case (Again t a)
      then obtain b' where i: "workLoop_iteration hasTimeRemaining currentTime (s\<lparr>isSchedulerPaused := b\<rparr>)
          = Again t (a\<lparr>isSchedulerPaused := b'\<rparr>)"
        using sp by (cases "workLoop_iteration hasTimeRemaining currentTime (s\<lparr>isSchedulerPaused := b\<rparr>)") auto
      have "workLoop_while' hasTimeRemaining t a = Some y" using Again step(2) by simp
      from step(1)[OF this] obtain b'' where
        "workLoop_while hasTimeRemaining t (a\<lparr>isSchedulerPaused := b'\<rparr>) =
          Some (fst y, (snd y)\<lparr>isSchedulerPaused := b''\<rparr>)" by blast
      then show ?thesis using i by (subst workLoop_while.simps) auto
    qed
  qed
qed

lemma workLoop_paused_aux:
  assumes "workLoop hasTimeRemaining initialTime s = Some y"
  shows "\<exists>b'. workLoop hasTimeRemaining initialTime (s\<lparr>isSchedulerPaused := b\<rparr>) =
          Some (fst y, (snd y)\<lparr>isSchedulerPaused := b'\<rparr>)"
proof -
  let ?s1 = "advanceTimers initialTime s"
  let ?s2 = "?s1\<lparr>currentTask := peek (taskQueue ?s1)\<rparr>"
  from assms obtain z where z: "workLoop_while hasTimeRemaining initialTime ?s2 = Some z"
    by (auto simp: workLoop_def Let_def split: option.splits)
  from workLoop_while_paused_aux[OF z] obtain b' where
    z': "workLoop_while hasTimeRemaining initialTime (?s2\<lparr>isSchedulerPaused := b\<rparr>) =
          Some (fst z, (snd z)\<lparr>isSchedulerPaused := b'\<rparr>)" by blast
  show ?thesis
    using assms z z'
    by (cases z; cases "fst z")
       (auto simp: workLoop_def Let_def split: option.splits if_splits)
qed

text \<open>
  Claim C10. \<open>workLoop\<close> on a state with \<open>isSchedulerPaused = true\<close> and on the same
  state with \<open>isSchedulerPaused = false\<close> either both do not return or return the same
  result and states that are equal in everything but the flag (the trace of invoked
  callbacks among it); \<open>unstable_pauseExecution\<close> only sets the flag.
\<close>

theorem pause_latch_inert:
  "map_option (\<lambda>(r, s'). (r, s'\<lparr>isSchedulerPaused := False\<rparr>))
     (workLoop hasTimeRemaining initialTime (s\<lparr>isSchedulerPaused := True\<rparr>)) =
   map_option (\<lambda>(r, s'). (r, s'\<lparr>isSchedulerPaused := False\<rparr>))
     (workLoop hasTimeRemaining initialTime (s\<lparr>isSchedulerPaused := False\<rparr>)) \<and>
   unstable_pauseExecution s = s\<lparr>isSchedulerPaused := True\<rparr>"
proof -
  let ?A = "workLoop hasTimeRemaining initialTime (s\<lparr>isSchedulerPaused := True\<rparr>)"
  let ?B = "workLoop hasTimeRemaining initialTime (s\<lparr>isSchedulerPaused := False\<rparr>)"
  let ?e = "map_option (\<lambda>(r, s'). (r, s'\<lparr>isSchedulerPaused := False\<rparr>))"
  have "?e ?A = ?e ?B"
  proof (cases ?B)
    case (Some y)
    from workLoop_paused_aux[OF Some, of True] obtain b' where
      "?A = Some (fst y, (snd y)\<lparr>isSchedulerPaused := b'\<rparr>)" by auto
    then show ?thesis using Some by (simp add: split_def)
  next
    case None
    have "?A = None"
    proof (rule ccontr)
      assume "?A \<noteq> None"
      then obtain y where "?A = Some y" by auto
      from workLoop_paused_aux[OF this, of False] show False using None by auto
    qed
    then show ?thesis using None by simp
  qed
  then show ?thesis by (simp add: unstable_pauseExecution_def)
qed

theorem pause_latch_inert_witness:
  "map_option (\<lambda>(r, s'). (r, trace s'))
     (workLoop True 0 ((snd (unstable_scheduleCallback NormalPriority noop OptionsAbsent
        (initial 0 [] None)))\<lparr>isSchedulerPaused := True\<rparr>)) = Some (Returned False, [Invoked 0 False])"
proof -
  let ?s = "snd (unstable_scheduleCallback NormalPriority noop OptionsAbsent (initial 0 [] None))"
  let ?A = "workLoop True 0 (?s\<lparr>isSchedulerPaused := True\<rparr>)"
  let ?B = "workLoop True 0 (?s\<lparr>isSchedulerPaused := False\<rparr>)"
  have B: "map_option (\<lambda>(r, s'). (r, trace s')) ?B = Some (Returned False, [Invoked 0 False])"
    by code_simp
  have t: "map_option (\<lambda>(r, s'). (r, trace s')) x =
           map_option (\<lambda>(r, s'). (r, trace s')) (map_option (\<lambda>(r, s'). (r, s'\<lparr>isSchedulerPaused := False\<rparr>)) x)"
    for x :: "(bool completion \<times> Scheduler) option"
    by (cases x) (auto simp: split_def)
  from pause_latch_inert[of True 0 ?s] have
    "map_option (\<lambda>(r, s'). (r, s'\<lparr>isSchedulerPaused := False\<rparr>)) ?A =
     map_option (\<lambda>(r, s'). (r, s'\<lparr>isSchedulerPaused := False\<rparr>)) ?B" by blast
  then have "map_option (\<lambda>(r, s'). (r, trace s')) ?A = map_option (\<lambda>(r, s'). (r, trace s')) ?B"
    using t[of ?A] t[of ?B] by simp
  then show ?thesis using B by simp
qed

section \<open>The queues, the store and the trace in every run\<close>

text \<open>
  The fields that the claims about the queues speak of: the two queues, the store, the
  trace, the current task and the id counter. The functions of the host adapter leave
  them alone.
\<close>

definition core :: "Scheduler \<Rightarrow> nat list \<times> nat list \<times> Task list \<times> event list \<times> nat option \<times> int" where
  "core s = (taskQueue s, timerQueue s, store s, trace s, currentTask s, taskIdCounter s)"

lemma core_fields:
  "core s' = core s \<Longrightarrow> taskQueue s' = taskQueue s"
  "core s' = core s \<Longrightarrow> timerQueue s' = timerQueue s"
  "core s' = core s \<Longrightarrow> store s' = store s"
  "core s' = core s \<Longrightarrow> trace s' = trace s"
  "core s' = core s \<Longrightarrow> currentTask s' = currentTask s"
  "core s' = core s \<Longrightarrow> taskIdCounter s' = taskIdCounter s"
  by (simp_all add: core_def)

lemma core_host [simp]:
  "core (snd (getCurrentTime s)) = core s"
  "core (schedulePerformWorkUntilDeadline s) = core s"
  "core (requestHostCallback cb s) = core s"
  "core (requestHostTimeout ms s) = core s"
  "core (cancelHostTimeout s) = core s"
  "core (snd (shouldYieldToHost s)) = core s"
  "core (requestPaint s) = core s"
  "core (forceFrameRate fps s) = core s"
  "core (unstable_pauseExecution s) = core s"
  "core (unstable_continueExecution s) = core s"
  "core (armTimeout ms s) = core s"
  "core (armCallback s) = core s"
  by (simp_all add: core_def snd_getCurrentTime schedulePerformWorkUntilDeadline_def
      requestHostCallback_def requestHostTimeout_def cancelHostTimeout_def shouldYieldToHost_def
      requestPaint_def forceFrameRate_def unstable_pauseExecution_def
      unstable_continueExecution_def armTimeout_def armCallback_def Let_def split_def
      split: option.splits)

lemma core_updates [simp]:
  "core (s\<lparr>currentPriorityLevel := l\<rparr>) = core s"
  "core (s\<lparr>isPerformingWork := w\<rparr>) = core s"
  "core (s\<lparr>isHostCallbackScheduled := c\<rparr>) = core s"
  "core (s\<lparr>isHostTimeoutScheduled := c\<rparr>) = core s"
  "core (s\<lparr>isMessageLoopRunning := c\<rparr>) = core s"
  "core (s\<lparr>scheduledHostCallback := hc\<rparr>) = core s"
  "core (s\<lparr>needsPaint := c\<rparr>) = core s"
  "core (s\<lparr>startTime_slice := t\<rparr>) = core s"
  "core (s\<lparr>hostMessages := n\<rparr>) = core s"
  "core (s\<lparr>hostTimers := ts\<rparr>) = core s"
  by (simp_all add: core_def)

lemma user_code_core_induct:
  assumes R_refl: "\<And>s. R s s"
    and R_trans: "\<And>s t u. R s t \<Longrightarrow> R t u \<Longrightarrow> R s u"
    and sched: "\<And>level cb opts s. R s (snd (unstable_scheduleCallback level cb opts s))"
    and cancel: "\<And>task s. R s (unstable_cancelCallback task s)"
    and frame: "\<And>s s'. core s' = core s \<Longrightarrow> R s s'"
  shows "R s (snd (run_fn f s))"
    and "R s (snd (run_actions as s))"
    and "R s (snd (do_action a s))"
proof -
  have br: "R s (snd (h (s\<lparr>currentPriorityLevel := l\<rparr>))\<lparr>currentPriorityLevel := p\<rparr>)"
    if "\<And>t. R t (snd (h t :: retval completion \<times> Scheduler))" for h l p s
  proof -
    have "R s (s\<lparr>currentPriorityLevel := l\<rparr>)" by (rule frame) simp
    moreover have "R (s\<lparr>currentPriorityLevel := l\<rparr>) (snd (h (s\<lparr>currentPriorityLevel := l\<rparr>)))"
      by (rule that)
    moreover have "R (snd (h (s\<lparr>currentPriorityLevel := l\<rparr>)))
        (snd (h (s\<lparr>currentPriorityLevel := l\<rparr>))\<lparr>currentPriorityLevel := p\<rparr>)"
      by (rule frame) simp
    ultimately show ?thesis using R_trans by blast
  qed
  show "R s (snd (run_fn f s))"
    by (rule user_code_induct(1)[where R = R])
       (simp_all add: R_refl sched cancel frame unstable_runWithPriority_def unstable_next_def
          wrapped_def Let_def split_def br, erule (1) R_trans)
  show "R s (snd (run_actions as s))"
    by (rule user_code_induct(2)[where R = R])
       (simp_all add: R_refl sched cancel frame unstable_runWithPriority_def unstable_next_def
          wrapped_def Let_def split_def br, erule (1) R_trans)
  show "R s (snd (do_action a s))"
    by (rule user_code_induct(3)[where R = R])
       (simp_all add: R_refl sched cancel frame unstable_runWithPriority_def unstable_next_def
          wrapped_def Let_def split_def br, erule (1) R_trans)
qed

subsection \<open>What \<open>push\<close> and \<open>pop\<close> do to the elements of a queue\<close>

lemma push_distinct: "distinct (push st h t) = (t \<notin> set h \<and> distinct h)"
proof -
  have "mset (push st h t) = mset (t # h)" by (simp add: push_mset)
  then have "distinct (push st h t) = distinct (t # h)" by (rule mset_eq_imp_distinct_iff)
  then show ?thesis by simp
qed

lemma pop_count:
  "distinct h \<Longrightarrow> h \<noteq> [] \<Longrightarrow>
   count (mset (snd (pop st h))) x = (if x \<in> set h \<and> x \<noteq> h ! 0 then 1 else 0)"
proof -
  assume d: "distinct h" and ne: "h \<noteq> []"
  have c: "count (mset h) x = (if x \<in> set h then 1 else 0)"
    using d by (simp add: distinct_count_atmost_1)
  have h0: "h ! 0 \<in> set h" using ne by simp
  show ?thesis using c h0 by (auto simp add: pop_mset[OF ne])
qed

lemma pop_set: "distinct h \<Longrightarrow> h \<noteq> [] \<Longrightarrow> set (snd (pop st h)) = set h - {h ! 0}"
proof -
  assume d: "distinct h" and ne: "h \<noteq> []"
  have "x \<in> set (snd (pop st h)) \<longleftrightarrow> x \<in> set h - {h ! 0}" for x
  proof -
    have "x \<in> set (snd (pop st h)) \<longleftrightarrow> count (mset (snd (pop st h))) x > 0"
      by (simp only: count_greater_zero_iff set_mset_mset)
    then show ?thesis by (simp add: pop_count[OF d ne])
  qed
  then show ?thesis by blast
qed

lemma pop_subset: "set (snd (pop st h)) \<subseteq> set h"
proof (cases "h = []")
  case True
  then show ?thesis by (simp add: pop_empty)
next
  case False
  have "mset (snd (pop st h)) \<subseteq># mset h" using pop_mset[OF False] by simp
  then have "set_mset (mset (snd (pop st h))) \<subseteq> set_mset (mset h)" by (rule set_mset_mono)
  then show ?thesis by simp
qed

lemma pop_keeps: "x \<in> set h \<Longrightarrow> x \<noteq> h ! 0 \<Longrightarrow> x \<in> set (snd (pop st h))"
proof -
  assume x: "x \<in> set h" "x \<noteq> h ! 0"
  then have ne: "h \<noteq> []" by auto
  have "count (mset h - {#h ! 0#}) x > 0" using x by simp
  then have "count (mset (snd (pop st h))) x > 0" by (simp add: pop_mset[OF ne])
  then show ?thesis by (simp only: count_greater_zero_iff set_mset_mset)
qed

lemma pop_distinct: "distinct h \<Longrightarrow> distinct (snd (pop st h))"
proof (cases "h = []")
  case True
  then show ?thesis by (simp add: pop_empty)
next
  case False
  assume d: "distinct h"
  show ?thesis
    unfolding distinct_count_atmost_1
    by (simp add: pop_count[OF d False] pop_set[OF d False])
qed


lemmas host_taskQueue [simp] = core_host[THEN core_fields(1)]
lemmas host_timerQueue [simp] = core_host[THEN core_fields(2)]
lemmas host_store [simp] = core_host[THEN core_fields(3)]
lemmas host_trace [simp] = core_host[THEN core_fields(4)]
lemmas host_currentTask [simp] = core_host[THEN core_fields(5)]
lemmas host_taskIdCounter [simp] = core_host[THEN core_fields(6)]

definition queues_inv :: "nat \<Rightarrow> nat list \<Rightarrow> nat list \<Rightarrow> bool" where
  "queues_inv n tq mq = ((\<forall>a\<in>set (tq @ mq). a < n) \<and> distinct (tq @ mq))"

definition sched_inv :: "Scheduler \<Rightarrow> bool" where
  "sched_inv s = queues_inv (length (store s)) (taskQueue s) (timerQueue s)"

lemma queues_inv_push_task:
  "queues_inv n tq mq \<Longrightarrow> queues_inv (Suc n) (push st tq n) mq"
  by (auto simp: queues_inv_def push_distinct less_Suc_eq)

lemma queues_inv_push_timer:
  "queues_inv n tq mq \<Longrightarrow> queues_inv (Suc n) tq (push st mq n)"
  by (auto simp: queues_inv_def push_distinct less_Suc_eq)

lemma queues_inv_pop_task:
  "queues_inv n tq mq \<Longrightarrow> queues_inv n (snd (pop st tq)) mq"
  using pop_subset[of st tq] pop_distinct[of tq st] by (auto simp: queues_inv_def)

lemma queues_inv_pop_timer:
  "queues_inv n tq mq \<Longrightarrow> queues_inv n tq (snd (pop st mq))"
  using pop_subset[of st mq] pop_distinct[of mq st] by (auto simp: queues_inv_def)

lemma queues_inv_promote:
  assumes inv: "queues_inv n tq mq" and ne: "mq \<noteq> []"
  shows "queues_inv n (push st' tq (mq ! 0)) (snd (pop st mq))"
proof -
  from inv have d: "distinct mq" by (simp add: queues_inv_def)
  have ps: "set (snd (pop st mq)) = set mq - {mq ! 0}" by (rule pop_set[OF d ne])
  have tin: "mq ! 0 \<in> set mq" using ne by simp
  show ?thesis
    using inv ps tin pop_distinct[OF d, of st]
    by (auto simp: queues_inv_def push_distinct)
qed

subsection \<open>The steps of the scheduler on the queues\<close>

text \<open>
  The steps that change a queue, the store or the trace, named: \<open>dropTimer\<close> and
  \<open>promoteTimer\<close> are the two branches of \<open>advanceTimers\<close> that pop,
  \<open>popTask\<close> is \<open>pop(taskQueue)\<close> and \<open>reattach\<close> stores a continuation.
\<close>

definition same_work :: "Scheduler \<Rightarrow> Scheduler \<Rightarrow> bool" where
  "same_work s s' =
     (taskQueue s' = taskQueue s \<and> timerQueue s' = timerQueue s \<and> store s' = store s \<and>
      trace s' = trace s)"

lemma core_same_work: "core s' = core s \<Longrightarrow> same_work s s'"
  by (simp add: same_work_def core_def)

lemma same_work_currentTask [simp]: "same_work s (s\<lparr>currentTask := x\<rparr>)"
  by (simp add: same_work_def)

lemma nth_update_callback [simp]:
  "id_task ((st[a := (st ! a)\<lparr>callback := c\<rparr>]) ! b) = id_task (st ! b)"
  "priorityLevel ((st[a := (st ! a)\<lparr>callback := c\<rparr>]) ! b) = priorityLevel (st ! b)"
  "startTime ((st[a := (st ! a)\<lparr>callback := c\<rparr>]) ! b) = startTime (st ! b)"
  "expirationTime ((st[a := (st ! a)\<lparr>callback := c\<rparr>]) ! b) = expirationTime (st ! b)"
  "sortIndex ((st[a := (st ! a)\<lparr>callback := c\<rparr>]) ! b) = sortIndex (st ! b)"
  "callback ((st[a := (st ! a)\<lparr>callback := c\<rparr>]) ! b) =
     (if a = b \<and> a < length st then c else callback (st ! b))"
  by (cases "a < length st"; cases "a = b"; simp add: list_update_beyond)+

lemma nth_update_sortIndex [simp]:
  "id_task ((st[a := (st ! a)\<lparr>sortIndex := e\<rparr>]) ! b) = id_task (st ! b)"
  "priorityLevel ((st[a := (st ! a)\<lparr>sortIndex := e\<rparr>]) ! b) = priorityLevel (st ! b)"
  "startTime ((st[a := (st ! a)\<lparr>sortIndex := e\<rparr>]) ! b) = startTime (st ! b)"
  "expirationTime ((st[a := (st ! a)\<lparr>sortIndex := e\<rparr>]) ! b) = expirationTime (st ! b)"
  "callback ((st[a := (st ! a)\<lparr>sortIndex := e\<rparr>]) ! b) = callback (st ! b)"
  "sortIndex ((st[a := (st ! a)\<lparr>sortIndex := e\<rparr>]) ! b) =
     (if a = b \<and> a < length st then e else sortIndex (st ! b))"
  by (cases "a < length st"; cases "a = b"; simp add: list_update_beyond)+

definition dropTimer :: "Scheduler \<Rightarrow> Scheduler" where
  "dropTimer s = s\<lparr>timerQueue := snd (pop (store s) (timerQueue s))\<rparr>"

definition promoteTimer :: "nat \<Rightarrow> Scheduler \<Rightarrow> Scheduler" where
  "promoteTimer timer s =
     (let s1 = s\<lparr>timerQueue := snd (pop (store s) (timerQueue s))\<rparr>;
          s2 = s1\<lparr>store := (store s1)[timer :=
                  (store s1 ! timer)\<lparr>sortIndex := expirationTime (store s1 ! timer)\<rparr>]\<rparr>;
          s3 = s2\<lparr>taskQueue := push (store s2) (taskQueue s2) timer\<rparr>
      in s3)"

definition popTask :: "Scheduler \<Rightarrow> Scheduler" where
  "popTask s = s\<lparr>taskQueue := snd (pop (store s) (taskQueue s))\<rparr>"

definition reattach :: "nat \<Rightarrow> fn \<Rightarrow> Scheduler \<Rightarrow> Scheduler" where
  "reattach task f s = s\<lparr>store := (store s)[task := (store s ! task)\<lparr>callback := Some f\<rparr>]\<rparr>"

lemma dropTimer_fields [simp]:
  "taskQueue (dropTimer s) = taskQueue s"
  "timerQueue (dropTimer s) = snd (pop (store s) (timerQueue s))"
  "store (dropTimer s) = store s"
  "trace (dropTimer s) = trace s"
  "currentTask (dropTimer s) = currentTask s"
  by (simp_all add: dropTimer_def)

lemma promoteTimer_fields [simp]:
  "taskQueue (promoteTimer t s) =
     push ((store s)[t := (store s ! t)\<lparr>sortIndex := expirationTime (store s ! t)\<rparr>])
       (taskQueue s) t"
  "timerQueue (promoteTimer t s) = snd (pop (store s) (timerQueue s))"
  "store (promoteTimer t s) =
     (store s)[t := (store s ! t)\<lparr>sortIndex := expirationTime (store s ! t)\<rparr>]"
  "trace (promoteTimer t s) = trace s"
  "currentTask (promoteTimer t s) = currentTask s"
  by (simp_all add: promoteTimer_def Let_def)

lemma popTask_fields [simp]:
  "taskQueue (popTask s) = snd (pop (store s) (taskQueue s))"
  "timerQueue (popTask s) = timerQueue s"
  "store (popTask s) = store s"
  "trace (popTask s) = trace s"
  "currentTask (popTask s) = currentTask s"
  by (simp_all add: popTask_def)

lemma reattach_fields [simp]:
  "taskQueue (reattach t f s) = taskQueue s"
  "timerQueue (reattach t f s) = timerQueue s"
  "store (reattach t f s) = (store s)[t := (store s ! t)\<lparr>callback := Some f\<rparr>]"
  "trace (reattach t f s) = trace s"
  "currentTask (reattach t f s) = currentTask s"
  by (simp_all add: reattach_def)

lemma cancelCallback_fields [simp]:
  "taskQueue (unstable_cancelCallback task s) = taskQueue s"
  "timerQueue (unstable_cancelCallback task s) = timerQueue s"
  "currentTask (unstable_cancelCallback task s) = currentTask s"
  "store (unstable_cancelCallback task s) = (store s)[task := (store s ! task)\<lparr>callback := None\<rparr>]"
  "trace (unstable_cancelCallback task s) =
     (if task < length (store s)
      then trace s @ [Cancelled task (callback (store s ! task) \<noteq> None)] else trace s)"
  by (simp_all add: unstable_cancelCallback_def list_update_beyond)

lemma beforeCallback_fields [simp]:
  "taskQueue (beforeCallback task ct s) = taskQueue s"
  "timerQueue (beforeCallback task ct s) = timerQueue s"
  "currentTask (beforeCallback task ct s) = currentTask s"
  "store (beforeCallback task ct s) = (store s)[task := (store s ! task)\<lparr>callback := None\<rparr>]"
  "trace (beforeCallback task ct s) =
     trace s @ [Invoked task (expirationTime (store s ! task) \<le> Finite ct)]"
  by (simp_all add: beforeCallback_def Let_def)

lemma scheduleCallback_cases:
  obtains (delayed) r where
      "store (snd (unstable_scheduleCallback level cb opts s)) = store s @ [r]"
      "callback r = Some cb"
      "trace (snd (unstable_scheduleCallback level cb opts s)) = trace s"
      "currentTask (snd (unstable_scheduleCallback level cb opts s)) = currentTask s"
      "taskQueue (snd (unstable_scheduleCallback level cb opts s)) = taskQueue s"
      "timerQueue (snd (unstable_scheduleCallback level cb opts s)) =
         push (store s @ [r]) (timerQueue s) (length (store s))"
  | (ready) r where
      "store (snd (unstable_scheduleCallback level cb opts s)) = store s @ [r]"
      "callback r = Some cb"
      "trace (snd (unstable_scheduleCallback level cb opts s)) = trace s"
      "currentTask (snd (unstable_scheduleCallback level cb opts s)) = currentTask s"
      "taskQueue (snd (unstable_scheduleCallback level cb opts s)) =
         push (store s @ [r]) (taskQueue s) (length (store s))"
      "timerQueue (snd (unstable_scheduleCallback level cb opts s)) = timerQueue s"
proof (cases "startTimeOf (fst (getCurrentTime s)) opts > Finite (fst (getCurrentTime s))")
  case True
  show ?thesis
    by (rule delayed[of "taskRecord level cb (fst (getCurrentTime s))
          (startTimeOf (fst (getCurrentTime s)) opts) (taskIdCounter s)"])
       (simp_all add: scheduleCallback_unfold Let_def True taskRecord_def)
next
  case False
  show ?thesis
    by (rule ready[of "taskRecord level cb (fst (getCurrentTime s))
          (startTimeOf (fst (getCurrentTime s)) opts) (taskIdCounter s)"])
       (simp_all add: scheduleCallback_unfold Let_def False taskRecord_def)
qed

lemma advanceTimers_unfold:
  "advanceTimers ct s =
     (case peek (timerQueue s) of
        None \<Rightarrow> s
      | Some timer \<Rightarrow>
          if callback (store s ! timer) = None then advanceTimers ct (dropTimer s)
          else if startTime (store s ! timer) \<le> Finite ct then advanceTimers ct (promoteTimer timer s)
          else s)"
  by (subst advanceTimers.simps)
     (simp add: dropTimer_def promoteTimer_def Let_def split: option.splits)

lemma advanceTimers_rule:
  assumes start: "P s"
    and drop: "\<And>s t. P s \<Longrightarrow> peek (timerQueue s) = Some t \<Longrightarrow>
                callback (store s ! t) = None \<Longrightarrow> P (dropTimer s)"
    and promote: "\<And>s t. P s \<Longrightarrow> peek (timerQueue s) = Some t \<Longrightarrow>
                callback (store s ! t) \<noteq> None \<Longrightarrow> startTime (store s ! t) \<le> Finite ct \<Longrightarrow>
                P (promoteTimer t s)"
  shows "P (advanceTimers ct s)"
proof -
  have "c = ct \<Longrightarrow> P s \<Longrightarrow> P (advanceTimers c s)" for c
  proof (induction c s rule: advanceTimers.induct)
    case (1 currentTime s)
    note c = "1.prems"(1) and Ps = "1.prems"(2)
    show ?case
    proof (cases "peek (timerQueue s)")
      case None
      have "advanceTimers currentTime s = s"
        by (subst advanceTimers_unfold) (simp add: None)
      then show ?thesis using Ps by simp
    next
      case (Some timer)
      show ?thesis
      proof (cases "callback (store s ! timer) = None")
        case True
        have e: "advanceTimers currentTime s = advanceTimers currentTime (dropTimer s)"
          by (subst advanceTimers_unfold) (simp add: Some True)
        have d: "dropTimer s = s\<lparr>timerQueue := snd (pop (store s) (timerQueue s))\<rparr>"
          by (simp add: dropTimer_def)
        have "P (dropTimer s)" using Ps Some True by (rule drop)
        then have "P (advanceTimers currentTime (dropTimer s))"
          unfolding d by (rule "1.IH"(1)[OF Some True c])
        then show ?thesis unfolding e .
      next
        case False
        show ?thesis
        proof (cases "startTime (store s ! timer) \<le> Finite currentTime")
          case True
          have e: "advanceTimers currentTime s = advanceTimers currentTime (promoteTimer timer s)"
            by (subst advanceTimers_unfold) (simp add: Some False True)
          have m: "startTime (store s ! timer) \<le> Finite ct" using True c by simp
          have "P (promoteTimer timer s)" using Ps Some False m by (rule promote)
          then have "P (advanceTimers currentTime (promoteTimer timer s))"
            unfolding promoteTimer_def Let_def
            by (rule "1.IH"(2)[OF Some False True HOL.refl HOL.refl HOL.refl c])
          then show ?thesis unfolding e .
        next
          case nm: False
          have "advanceTimers currentTime s = s"
            by (subst advanceTimers_unfold) (simp add: Some False nm)
          then show ?thesis using Ps by simp
        qed
      qed
    qed
  qed
  then show ?thesis using start by simp
qed

lemma afterCallback_unfold:
  "afterCallback task v s =
     (fst (getCurrentTime s),
      advanceTimers (fst (getCurrentTime s))
        (case v of
           Function f \<Rightarrow> reattach task f (snd (getCurrentTime s))
         | NotFunction \<Rightarrow>
             if Some task = peek (taskQueue s) then popTask (snd (getCurrentTime s))
             else snd (getCurrentTime s)))"
  by (simp add: afterCallback_def Let_def split_def reattach_def popTask_def split: retval.splits)

lemma shouldBreak_core [simp]: "core (snd (shouldBreak h ct task s)) = core s"
  by (simp add: shouldBreak_def)

lemma workLoop_iteration_cases:
  obtains (idle) "currentTask s = None"
      "workLoop_iteration h ct s = Exit (Returned ct) s"
  | (break) task where "currentTask s = Some task"
      "fst (shouldBreak h ct task s)"
      "workLoop_iteration h ct s = Exit (Returned ct) (snd (shouldBreak h ct task s))"
  | (cancelled) task where "currentTask s = Some task"
      "\<not> fst (shouldBreak h ct task s)"
      "callback (store s ! task) = None"
      "workLoop_iteration h ct s =
         Again ct ((popTask (snd (shouldBreak h ct task s)))
           \<lparr>currentTask := peek (taskQueue (popTask (snd (shouldBreak h ct task s))))\<rparr>)"
  | (threw) task cb where "currentTask s = Some task"
      "\<not> fst (shouldBreak h ct task s)"
      "callback (store s ! task) = Some cb"
      "fst (run_fn cb (beforeCallback task ct (snd (shouldBreak h ct task s)))) = Thrown"
      "workLoop_iteration h ct s =
         Exit Thrown (snd (run_fn cb (beforeCallback task ct (snd (shouldBreak h ct task s)))))"
  | (returned) task cb v where "currentTask s = Some task"
      "\<not> fst (shouldBreak h ct task s)"
      "callback (store s ! task) = Some cb"
      "fst (run_fn cb (beforeCallback task ct (snd (shouldBreak h ct task s)))) = Returned v"
      "workLoop_iteration h ct s =
         Again (fst (afterCallback task v
                  (snd (run_fn cb (beforeCallback task ct (snd (shouldBreak h ct task s)))))))
           ((snd (afterCallback task v
                  (snd (run_fn cb (beforeCallback task ct (snd (shouldBreak h ct task s)))))))
            \<lparr>currentTask := peek (taskQueue (snd (afterCallback task v
                  (snd (run_fn cb (beforeCallback task ct (snd (shouldBreak h ct task s))))))))\<rparr>)"
proof (cases "currentTask s")
  case None
  then show ?thesis using idle by (simp add: workLoop_iteration_def)
next
  case (Some task)
  let ?y = "shouldBreak h ct task s"
  have st: "store (snd ?y) = store s" by (rule core_fields(3)) simp
  show ?thesis
  proof (cases "fst ?y")
    case True
    then show ?thesis using Some break[of task]
      by (simp add: workLoop_iteration_def enableSchedulerDebugging_def split_def Let_def)
  next
    case noyield: False
    show ?thesis
    proof (cases "callback (store s ! task)")
      case None
      then show ?thesis using Some noyield st cancelled[of task]
        by (simp add: workLoop_iteration_def enableSchedulerDebugging_def split_def Let_def
            popTask_def)
    next
      case cbS: (Some cb)
      let ?r = "run_fn cb (beforeCallback task ct (snd ?y))"
      show ?thesis
      proof (cases "fst ?r")
        case (Returned v)
        then show ?thesis using Some noyield cbS st returned[of task cb v]
          by (simp add: workLoop_iteration_def enableSchedulerDebugging_def split_def Let_def)
      next
        case Thrown
        then show ?thesis using Some noyield cbS st threw[of task cb]
          by (simp add: workLoop_iteration_def enableSchedulerDebugging_def split_def Let_def)
      qed
    qed
  qed
qed

subsection \<open>Properties kept by every step\<close>

text \<open>
  \<open>scheduler_keeps P Q\<close>: every step of the scheduler keeps \<open>P\<close>, where \<open>Q t\<close>
  is what holds while the callback of task \<open>t\<close> runs. Such a \<open>P\<close> holds after user
  code, after a turn of the work loop that started with \<open>currentTask\<close> the head of the
  ready queue, after the work loop, and after every event of the host.
\<close>

definition scheduler_keeps :: "(Scheduler \<Rightarrow> bool) \<Rightarrow> (nat \<Rightarrow> Scheduler \<Rightarrow> bool) \<Rightarrow> bool" where
  "scheduler_keeps P Q =
     ((\<forall>s s'. same_work s s' \<longrightarrow> P s \<longrightarrow> P s') \<and>
      (\<forall>level cb opts s. P s \<longrightarrow> P (snd (unstable_scheduleCallback level cb opts s))) \<and>
      (\<forall>task s. P s \<longrightarrow> P (unstable_cancelCallback task s)) \<and>
      (\<forall>s t. P s \<longrightarrow> peek (timerQueue s) = Some t \<longrightarrow> callback (store s ! t) = None \<longrightarrow>
         P (dropTimer s)) \<and>
      (\<forall>s t ct. P s \<longrightarrow> peek (timerQueue s) = Some t \<longrightarrow> callback (store s ! t) \<noteq> None \<longrightarrow>
         startTime (store s ! t) \<le> Finite ct \<longrightarrow> P (promoteTimer t s)) \<and>
      (\<forall>s t. P s \<longrightarrow> peek (taskQueue s) = Some t \<longrightarrow> callback (store s ! t) = None \<longrightarrow>
         P (popTask s)) \<and>
      (\<forall>s t cb ct. P s \<longrightarrow> peek (taskQueue s) = Some t \<longrightarrow> callback (store s ! t) = Some cb \<longrightarrow>
         Q t (beforeCallback t ct s)) \<and>
      (\<forall>t s s'. same_work s s' \<longrightarrow> Q t s \<longrightarrow> Q t s') \<and>
      (\<forall>t level cb opts s. Q t s \<longrightarrow> Q t (snd (unstable_scheduleCallback level cb opts s))) \<and>
      (\<forall>t task s. Q t s \<longrightarrow> Q t (unstable_cancelCallback task s)) \<and>
      (\<forall>t s. Q t s \<longrightarrow> P s) \<and>
      (\<forall>t f s. Q t s \<longrightarrow> P (reattach t f s)) \<and>
      (\<forall>t s. Q t s \<longrightarrow> peek (taskQueue s) = Some t \<longrightarrow> P (popTask s)))"

lemma scheduler_keepsD:
  assumes "scheduler_keeps P Q"
  shows "same_work s s' \<Longrightarrow> P s \<Longrightarrow> P s'"
    and "P s \<Longrightarrow> P (snd (unstable_scheduleCallback level cb opts s))"
    and "P s \<Longrightarrow> P (unstable_cancelCallback task s)"
    and "P s \<Longrightarrow> peek (timerQueue s) = Some t \<Longrightarrow> callback (store s ! t) = None \<Longrightarrow>
         P (dropTimer s)"
    and "P s \<Longrightarrow> peek (timerQueue s) = Some t \<Longrightarrow> callback (store s ! t) \<noteq> None \<Longrightarrow>
         startTime (store s ! t) \<le> Finite ct \<Longrightarrow> P (promoteTimer t s)"
    and "P s \<Longrightarrow> peek (taskQueue s) = Some t \<Longrightarrow> callback (store s ! t) = None \<Longrightarrow>
         P (popTask s)"
    and "P s \<Longrightarrow> peek (taskQueue s) = Some t \<Longrightarrow> callback (store s ! t) = Some cb \<Longrightarrow>
         Q t (beforeCallback t ct s)"
    and "same_work s s' \<Longrightarrow> Q t s \<Longrightarrow> Q t s'"
    and "Q t s \<Longrightarrow> Q t (snd (unstable_scheduleCallback level cb opts s))"
    and "Q t s \<Longrightarrow> Q t (unstable_cancelCallback task s)"
    and "Q t s \<Longrightarrow> P s"
    and "Q t s \<Longrightarrow> P (reattach t f s)"
    and "Q t s \<Longrightarrow> peek (taskQueue s) = Some t \<Longrightarrow> P (popTask s)"
  using assms unfolding scheduler_keeps_def
  by - (elim conjE, (erule allE)+, (erule (1) impE)+, assumption)+

lemma scheduler_keeps_user:
  assumes st: "scheduler_keeps P Q"
  shows "P s \<Longrightarrow> P (snd (run_fn f s))"
    and "P s \<Longrightarrow> P (snd (run_actions as s))"
    and "P s \<Longrightarrow> P (snd (do_action a s))"
    and "Q t s \<Longrightarrow> Q t (snd (run_fn f s))"
proof -
  have p: "P s \<longrightarrow> P (snd (run_fn f s))" "P s \<longrightarrow> P (snd (run_actions as s))"
    "P s \<longrightarrow> P (snd (do_action a s))"
    by (rule user_code_core_induct[where R = "\<lambda>s s'. P s \<longrightarrow> P s'"];
        use scheduler_keepsD(1-3)[OF st] core_same_work in blast)+
  have q: "Q t s \<longrightarrow> Q t (snd (run_fn f s))"
    by (rule user_code_core_induct(1)[where R = "\<lambda>s s'. Q t s \<longrightarrow> Q t s'"];
        use scheduler_keepsD(8-10)[OF st] core_same_work in blast)
  show "P s \<Longrightarrow> P (snd (run_fn f s))" "P s \<Longrightarrow> P (snd (run_actions as s))"
    "P s \<Longrightarrow> P (snd (do_action a s))" "Q t s \<Longrightarrow> Q t (snd (run_fn f s))"
    using p q by blast+
qed

lemma scheduler_keeps_advanceTimers:
  assumes st: "scheduler_keeps P Q" and P: "P s"
  shows "P (advanceTimers ct s)"
  using P by (rule advanceTimers_rule) (use scheduler_keepsD(4,5)[OF st] in blast)+

lemma scheduler_keeps_afterCallback:
  assumes st: "scheduler_keeps P Q" and Q: "Q t s"
  shows "P (snd (afterCallback t v s))"
proof -
  let ?s1 = "snd (getCurrentTime s)"
  have sw: "same_work s ?s1" by (rule core_same_work) simp
  have Q1: "Q t ?s1" using sw Q by (rule scheduler_keepsD(8)[OF st])
  have tq: "taskQueue ?s1 = taskQueue s" by simp
  have "P (case v of
             Function f \<Rightarrow> reattach t f ?s1
           | NotFunction \<Rightarrow> if Some t = peek (taskQueue s) then popTask ?s1 else ?s1)"
  proof (cases v)
    case NotFunction
    show ?thesis
    proof (cases "Some t = peek (taskQueue s)")
      case True
      then have "peek (taskQueue ?s1) = Some t" using tq by simp
      then have "P (popTask ?s1)" using Q1 scheduler_keepsD(13)[OF st] by blast
      then show ?thesis using NotFunction True by simp
    next
      case False
      then show ?thesis using NotFunction Q1 scheduler_keepsD(11)[OF st] by auto
    qed
  next
    case (Function f)
    then show ?thesis using Q1 scheduler_keepsD(12)[OF st] by auto
  qed
  then show ?thesis
    unfolding afterCallback_unfold snd_conv by (rule scheduler_keeps_advanceTimers[OF st])
qed

definition loop_top :: "Scheduler \<Rightarrow> bool" where
  "loop_top s = (currentTask s = peek (taskQueue s))"

lemma loop_top_update [simp]: "loop_top (s\<lparr>currentTask := c\<rparr>) = (c = peek (taskQueue s))"
  by (simp add: loop_top_def)

lemma scheduler_keeps_iteration:
  assumes st: "scheduler_keeps P Q" and P: "P s" and top: "loop_top s"
  shows "case workLoop_iteration h ct s of
           Exit r s' \<Rightarrow> P s' \<and> (r \<noteq> Thrown \<longrightarrow> loop_top s')
         | Again ct' s' \<Rightarrow> P s' \<and> loop_top s'"
proof (cases rule: workLoop_iteration_cases[of s h ct])
  case idle
  then show ?thesis using P top by simp
next
  case (break task)
  let ?s1 = "snd (shouldBreak h ct task s)"
  have c: "core ?s1 = core s" by simp
  have "P ?s1" using core_same_work[OF c] P by (rule scheduler_keepsD(1)[OF st])
  moreover have "loop_top ?s1" using top core_fields(1,5)[OF c] by (simp add: loop_top_def)
  ultimately show ?thesis using break by simp
next
  case (cancelled task)
  let ?s1 = "snd (shouldBreak h ct task s)"
  have c: "core ?s1 = core s" by simp
  have P1: "P ?s1" using core_same_work[OF c] P by (rule scheduler_keepsD(1)[OF st])
  have pk: "peek (taskQueue ?s1) = Some task"
    using top cancelled(1) core_fields(1)[OF c] by (simp add: loop_top_def)
  have cb: "callback (store ?s1 ! task) = None" using cancelled(3) core_fields(3)[OF c] by simp
  have "P (popTask ?s1)" using P1 pk cb by (rule scheduler_keepsD(6)[OF st])
  then have "P ((popTask ?s1)\<lparr>currentTask := peek (taskQueue (popTask ?s1))\<rparr>)"
    using scheduler_keepsD(1)[OF st] same_work_currentTask by blast
  then show ?thesis using cancelled by simp
next
  case (threw task cb)
  let ?s1 = "snd (shouldBreak h ct task s)"
  have c: "core ?s1 = core s" by simp
  have P1: "P ?s1" using core_same_work[OF c] P by (rule scheduler_keepsD(1)[OF st])
  have pk: "peek (taskQueue ?s1) = Some task"
    using top threw(1) core_fields(1)[OF c] by (simp add: loop_top_def)
  have cb: "callback (store ?s1 ! task) = Some cb" using threw(3) core_fields(3)[OF c] by simp
  have "Q task (beforeCallback task ct ?s1)" using P1 pk cb by (rule scheduler_keepsD(7)[OF st])
  then have "Q task (snd (run_fn cb (beforeCallback task ct ?s1)))"
    by (rule scheduler_keeps_user(4)[OF st])
  then have "P (snd (run_fn cb (beforeCallback task ct ?s1)))" by (rule scheduler_keepsD(11)[OF st])
  then show ?thesis using threw by simp
next
  case (returned task cb v)
  let ?s1 = "snd (shouldBreak h ct task s)"
  let ?s2 = "snd (run_fn cb (beforeCallback task ct ?s1))"
  let ?s3 = "snd (afterCallback task v ?s2)"
  have c: "core ?s1 = core s" by simp
  have P1: "P ?s1" using core_same_work[OF c] P by (rule scheduler_keepsD(1)[OF st])
  have pk: "peek (taskQueue ?s1) = Some task"
    using top returned(1) core_fields(1)[OF c] by (simp add: loop_top_def)
  have cb: "callback (store ?s1 ! task) = Some cb" using returned(3) core_fields(3)[OF c] by simp
  have "Q task (beforeCallback task ct ?s1)" using P1 pk cb by (rule scheduler_keepsD(7)[OF st])
  then have "Q task ?s2" by (rule scheduler_keeps_user(4)[OF st])
  then have "P ?s3" by (rule scheduler_keeps_afterCallback[OF st])
  then have "P (?s3\<lparr>currentTask := peek (taskQueue ?s3)\<rparr>)"
    using scheduler_keepsD(1)[OF st] same_work_currentTask by blast
  then show ?thesis using returned by simp
qed

lemma scheduler_keeps_while:
  assumes st: "scheduler_keeps P Q"
  shows "workLoop_while h ct s = Some y \<Longrightarrow>
         P s \<and> loop_top s \<longrightarrow> P (snd y) \<and> (fst y \<noteq> Thrown \<longrightarrow> loop_top (snd y))"
proof (induction rule: workLoop_while_induct)
  case (step w h ct s y)
  show ?case
  proof
    assume a: "P s \<and> loop_top s"
    then have it: "case workLoop_iteration h ct s of
           Exit r s' \<Rightarrow> P s' \<and> (r \<noteq> Thrown \<longrightarrow> loop_top s')
         | Again ct' s' \<Rightarrow> P s' \<and> loop_top s'"
      using scheduler_keeps_iteration[OF st] by blast
    show "P (snd y) \<and> (fst y \<noteq> Thrown \<longrightarrow> loop_top (snd y))"
    proof (cases "workLoop_iteration h ct s")
      case (Exit r s1)
      then have "y = (r, s1)" using step(2) by simp
      then show ?thesis using it Exit by simp
    next
      case (Again ct' s1)
      then have "w h ct' s1 = Some y" using step(2) by simp
      from step(1)[OF this] show ?thesis using it Again by simp
    qed
  qed
qed

lemma scheduler_keeps_workLoop:
  assumes st: "scheduler_keeps P Q" and w: "workLoop h t s = Some (r, s')" and P: "P s"
  shows "P s'"
proof -
  let ?s1 = "advanceTimers t s"
  let ?s2 = "?s1\<lparr>currentTask := peek (taskQueue ?s1)\<rparr>"
  have "P ?s1" using P by (rule scheduler_keeps_advanceTimers[OF st])
  then have P2: "P ?s2" using scheduler_keepsD(1)[OF st] same_work_currentTask by blast
  from w obtain y where y: "workLoop_while h t ?s2 = Some y"
    by (auto simp: workLoop_def Let_def split: option.splits)
  from scheduler_keeps_while[OF st y] P2 have P3: "P (snd y)" by simp
  have "same_work (snd y) s'"
    using w y by (cases y; cases "fst y")
      (auto simp: workLoop_def Let_def same_work_def split: option.splits if_splits)
  then show ?thesis using P3 by (rule scheduler_keepsD(1)[OF st])
qed

lemma scheduler_keeps_flushWork:
  assumes st: "scheduler_keeps P Q" and w: "flushWork h t s = Some (r, s')" and P: "P s"
  shows "P s'"
proof -
  let ?s1 = "s\<lparr>isHostCallbackScheduled := False\<rparr>"
  let ?s2 = "if isHostTimeoutScheduled ?s1
             then cancelHostTimeout (?s1\<lparr>isHostTimeoutScheduled := False\<rparr>) else ?s1"
  let ?s3 = "?s2\<lparr>isPerformingWork := True\<rparr>"
  have "same_work s ?s3" by (simp add: same_work_def)
  then have P3: "P ?s3" using P by (rule scheduler_keepsD(1)[OF st])
  from w obtain r4 s4 where w4: "workLoop h t ?s3 = Some (r4, s4)"
    by (auto simp: flushWork_def Let_def split: option.splits)
  have P4: "P s4" using st w4 P3 by (rule scheduler_keeps_workLoop)
  have "same_work s4 s'" using w w4 by (auto simp: flushWork_def Let_def same_work_def)
  then show ?thesis using P4 by (rule scheduler_keepsD(1)[OF st])
qed

lemma scheduler_keeps_performWork:
  assumes st: "scheduler_keeps P Q" and w: "performWorkUntilDeadline s = Some (r, s')" and P: "P s"
  shows "P s'"
proof (cases "scheduledHostCallback s")
  case None
  then have "same_work s s'" using w by (auto simp: performWorkUntilDeadline_def same_work_def)
  then show ?thesis using P by (rule scheduler_keepsD(1)[OF st])
next
  case (Some hc)
  then have hc: "scheduledHostCallback s = Some FlushWork" by (cases hc) simp
  let ?s2 = "(snd (getCurrentTime s))\<lparr>startTime_slice := fst (getCurrentTime s)\<rparr>"
  have "same_work s ?s2" by (simp add: same_work_def)
  then have P2: "P ?s2" using P by (rule scheduler_keepsD(1)[OF st])
  from w hc obtain r3 s3 where w3: "flushWork True (fst (getCurrentTime s)) ?s2 = Some (r3, s3)"
    by (auto simp: performWorkUntilDeadline_def Let_def split_def split: option.splits)
  have P3: "P s3" using st w3 P2 by (rule scheduler_keeps_flushWork)
  have "same_work s3 s'" using w w3 hc
    by (cases r3) (auto simp: performWorkUntilDeadline_def Let_def split_def same_work_def)
  then show ?thesis using P3 by (rule scheduler_keepsD(1)[OF st])
qed

lemma scheduler_keeps_handleTimeout:
  assumes st: "scheduler_keeps P Q" and P: "P s"
  shows "P (handleTimeout t s)"
proof -
  let ?s1 = "s\<lparr>isHostTimeoutScheduled := False\<rparr>"
  have "same_work s ?s1" by (simp add: same_work_def)
  then have "P ?s1" using P by (rule scheduler_keepsD(1)[OF st])
  then have P2: "P (advanceTimers t ?s1)" by (rule scheduler_keeps_advanceTimers[OF st])
  have "same_work (advanceTimers t ?s1) (handleTimeout t s)"
    by (auto simp: handleTimeout_def Let_def same_work_def split: option.splits)
  then show ?thesis using P2 by (rule scheduler_keepsD(1)[OF st])
qed

lemma scheduler_keeps_hostStep:
  assumes st: "scheduler_keeps P Q" and w: "hostStep e s = Some s'" and P: "P s"
  shows "P s'"
proof (cases e)
  case MessageEvent
  show ?thesis
  proof (cases "hostMessages s = 0")
    case True
    then show ?thesis using w P MessageEvent by (simp add: hostStep_def)
  next
    case False
    let ?s1 = "s\<lparr>hostMessages := hostMessages s - 1\<rparr>"
    have "same_work s ?s1" by (simp add: same_work_def)
    then have P1: "P ?s1" using P by (rule scheduler_keepsD(1)[OF st])
    from w MessageEvent False obtain r where "performWorkUntilDeadline ?s1 = Some (r, s')"
      by (auto simp: hostStep_def)
    then show ?thesis using P1 scheduler_keeps_performWork[OF st] by blast
  qed
next
  case (TimeoutEvent i)
  show ?thesis
  proof (cases "i \<in> set (map fst (hostTimers s))")
    case False
    then show ?thesis using w P TimeoutEvent by (simp add: hostStep_def)
  next
    case True
    let ?s1 = "s\<lparr>hostTimers := filter (\<lambda>(j, ms). j \<noteq> i) (hostTimers s)\<rparr>"
    let ?s2 = "snd (getCurrentTime ?s1)"
    have "same_work s ?s2" by (simp add: same_work_def)
    then have "P ?s2" using P by (rule scheduler_keepsD(1)[OF st])
    then have "P (handleTimeout (fst (getCurrentTime ?s1)) ?s2)"
      by (rule scheduler_keeps_handleTimeout[OF st])
    then show ?thesis using w TimeoutEvent True by (simp add: hostStep_def Let_def split_def)
  qed
next
  case (UserEvent a)
  then show ?thesis using w P scheduler_keeps_user(3)[OF st, of s a] by (auto simp: hostStep_def)
qed

lemma scheduler_keeps_run:
  assumes st: "scheduler_keeps P Q"
  shows "run es s = Some s' \<Longrightarrow> P s \<Longrightarrow> P s'"
proof (induction es arbitrary: s)
  case Nil
  then show ?case by simp
next
  case (Cons e es)
  from Cons.prems(1) obtain s1 where s1: "hostStep e s = Some s1" "run es s1 = Some s'"
    by (auto split: option.splits)
  have "P s1" using st s1(1) Cons.prems(2) by (rule scheduler_keeps_hostStep)
  then show ?case using Cons.IH[OF s1(2)] by simp
qed

lemma sched_inv_same: "same_work s s' \<Longrightarrow> sched_inv s' = sched_inv s"
  by (simp add: same_work_def sched_inv_def)

lemma sched_inv_schedule:
  assumes inv: "sched_inv s"
  shows "sched_inv (snd (unstable_scheduleCallback level cb opts s))"
proof (cases rule: scheduleCallback_cases[of level cb opts s])
  case (delayed r)
  then show ?thesis using inv by (simp add: sched_inv_def queues_inv_push_timer)
next
  case (ready r)
  then show ?thesis using inv by (simp add: sched_inv_def queues_inv_push_task)
qed

lemma sched_inv_pieces [simp]:
  "sched_inv (unstable_cancelCallback task s) = sched_inv s"
  "sched_inv (beforeCallback t ct s) = sched_inv s"
  "sched_inv (reattach t f s) = sched_inv s"
  by (simp_all add: sched_inv_def)

lemma sched_inv_pops:
  "sched_inv s \<Longrightarrow> sched_inv (popTask s)"
  "sched_inv s \<Longrightarrow> sched_inv (dropTimer s)"
  "sched_inv s \<Longrightarrow> peek (timerQueue s) = Some t \<Longrightarrow> sched_inv (promoteTimer t s)"
proof -
  show "sched_inv s \<Longrightarrow> sched_inv (popTask s)"
    by (simp add: sched_inv_def queues_inv_pop_task)
  show "sched_inv s \<Longrightarrow> sched_inv (dropTimer s)"
    by (simp add: sched_inv_def queues_inv_pop_timer)
  show "sched_inv (promoteTimer t s)" if inv: "sched_inv s" and pk: "peek (timerQueue s) = Some t"
  proof -
    from pk have ne: "timerQueue s \<noteq> []" and t: "t = timerQueue s ! 0"
      by (auto simp: peek_def split: if_splits)
    show ?thesis
      using inv queues_inv_promote[OF _ ne, of "length (store s)" "taskQueue s" _ "store s"]
      by (simp add: sched_inv_def t)
  qed
qed

lemma peek_in_set: "peek h = Some t \<Longrightarrow> t \<in> set h"
  by (auto simp: peek_def split: if_splits)

lemma sched_inv_peek:
  "sched_inv s \<Longrightarrow> peek (taskQueue s) = Some t \<Longrightarrow> t < length (store s)"
  using peek_in_set[of "taskQueue s" t] by (auto simp: sched_inv_def queues_inv_def)

lemma scheduler_keeps_sched_inv: "scheduler_keeps sched_inv (\<lambda>t. sched_inv)"
  unfolding scheduler_keeps_def
  by (intro conjI allI impI) (simp_all add: sched_inv_same sched_inv_schedule sched_inv_pops)

definition never_after_cancel :: "event list \<Rightarrow> bool" where
  "never_after_cancel tr =
     (\<forall>i j a d. i < j \<and> j < length tr \<and> tr ! i = Cancelled a True \<longrightarrow> tr ! j \<noteq> Invoked a d)"

lemma never_after_cancel_snoc:
  "never_after_cancel (tr @ [e]) =
     (never_after_cancel tr \<and> (\<forall>a d. e = Invoked a d \<longrightarrow> Cancelled a True \<notin> set tr))"
proof
  assume L: "never_after_cancel (tr @ [e])"
  have "never_after_cancel tr" unfolding never_after_cancel_def
  proof (intro allI impI)
    fix i j a d assume a: "i < j \<and> j < length tr \<and> tr ! i = Cancelled a True"
    then have "(tr @ [e]) ! i = Cancelled a True" "(tr @ [e]) ! j = tr ! j" "j < length (tr @ [e])"
      by (simp_all add: nth_append)
    then show "tr ! j \<noteq> Invoked a d" using L a unfolding never_after_cancel_def by metis
  qed
  moreover have "Cancelled a True \<notin> set tr" if e: "e = Invoked a d" for a d
  proof
    assume "Cancelled a True \<in> set tr"
    then obtain i where i: "i < length tr" "tr ! i = Cancelled a True"
      by (auto simp: in_set_conv_nth)
    then have "(tr @ [e]) ! i = Cancelled a True" "(tr @ [e]) ! length tr = Invoked a d"
      "length tr < length (tr @ [e])"
      using e by (simp_all add: nth_append)
    then show False using L i(1) unfolding never_after_cancel_def by metis
  qed
  ultimately show "never_after_cancel tr \<and> (\<forall>a d. e = Invoked a d \<longrightarrow> Cancelled a True \<notin> set tr)"
    by blast
next
  assume R: "never_after_cancel tr \<and> (\<forall>a d. e = Invoked a d \<longrightarrow> Cancelled a True \<notin> set tr)"
  show "never_after_cancel (tr @ [e])" unfolding never_after_cancel_def
  proof (intro allI impI)
    fix i j a d
    assume a: "i < j \<and> j < length (tr @ [e]) \<and> (tr @ [e]) ! i = Cancelled a True"
    then have i: "i < length tr" "tr ! i = Cancelled a True" by (auto simp: nth_append)
    show "(tr @ [e]) ! j \<noteq> Invoked a d"
    proof (cases "j < length tr")
      case True
      then have "tr ! j \<noteq> Invoked a d" using R a i unfolding never_after_cancel_def by blast
      then show ?thesis using True by (simp add: nth_append)
    next
      case False
      then have j: "(tr @ [e]) ! j = e" using a by (simp add: nth_append)
      have "Cancelled a True \<in> set tr" using i by (auto simp: in_set_conv_nth)
      then show ?thesis using R j by auto
    qed
  qed
qed

definition cancel_inv :: "Scheduler \<Rightarrow> bool" where
  "cancel_inv s =
     (sched_inv s \<and> never_after_cancel (trace s) \<and>
      (\<forall>a. Cancelled a True \<in> set (trace s) \<longrightarrow>
           a < length (store s) \<and> callback (store s ! a) = None))"

definition running_inv :: "nat \<Rightarrow> Scheduler \<Rightarrow> bool" where
  "running_inv t s =
     (cancel_inv s \<and> t < length (store s) \<and> callback (store s ! t) = None \<and>
      Cancelled t True \<notin> set (trace s))"

lemma cancel_inv_same: "same_work s s' \<Longrightarrow> cancel_inv s \<Longrightarrow> cancel_inv s'"
  by (simp add: cancel_inv_def sched_inv_same) (simp add: same_work_def)

lemma cancel_inv_schedule:
  assumes inv: "cancel_inv s"
  shows "cancel_inv (snd (unstable_scheduleCallback level cb opts s))"
proof -
  have "\<exists>r. store (snd (unstable_scheduleCallback level cb opts s)) = store s @ [r] \<and>
            trace (snd (unstable_scheduleCallback level cb opts s)) = trace s"
    by (cases rule: scheduleCallback_cases[of level cb opts s]) auto
  then show ?thesis using inv sched_inv_schedule[of s level cb opts]
    by (auto simp: cancel_inv_def nth_append)
qed

lemma cancel_inv_cancel:
  assumes inv: "cancel_inv s"
  shows "cancel_inv (unstable_cancelCallback task s)"
  using inv by (auto simp: cancel_inv_def never_after_cancel_snoc)

lemma cancel_inv_timers:
  "cancel_inv s \<Longrightarrow> cancel_inv (dropTimer s)"
  "cancel_inv s \<Longrightarrow> peek (timerQueue s) = Some t \<Longrightarrow> cancel_inv (promoteTimer t s)"
  "cancel_inv s \<Longrightarrow> cancel_inv (popTask s)"
  by (simp_all add: cancel_inv_def sched_inv_pops)

lemma running_inv_before:
  assumes inv: "cancel_inv s" and pk: "peek (taskQueue s) = Some t"
    and cb: "callback (store s ! t) = Some cb"
  shows "running_inv t (beforeCallback t ct s)"
proof -
  have t: "t < length (store s)" using inv pk by (simp add: cancel_inv_def sched_inv_peek)
  have n: "Cancelled t True \<notin> set (trace s)" using inv cb by (auto simp: cancel_inv_def)
  show ?thesis using inv t n
    by (auto simp: running_inv_def cancel_inv_def never_after_cancel_snoc)
qed

lemma running_inv_same: "same_work s s' \<Longrightarrow> running_inv t s \<Longrightarrow> running_inv t s'"
  using cancel_inv_same[of s s'] by (auto simp: running_inv_def same_work_def)

lemma running_inv_schedule:
  assumes inv: "running_inv t s"
  shows "running_inv t (snd (unstable_scheduleCallback level cb opts s))"
proof -
  have "\<exists>r. store (snd (unstable_scheduleCallback level cb opts s)) = store s @ [r] \<and>
            trace (snd (unstable_scheduleCallback level cb opts s)) = trace s"
    by (cases rule: scheduleCallback_cases[of level cb opts s]) auto
  then show ?thesis using inv cancel_inv_schedule[of s level cb opts]
    by (auto simp: running_inv_def nth_append)
qed

lemma running_inv_cancel:
  assumes inv: "running_inv t s"
  shows "running_inv t (unstable_cancelCallback task s)"
  using inv cancel_inv_cancel[of s task] by (auto simp: running_inv_def)

lemma running_inv_reattach:
  assumes inv: "running_inv t s"
  shows "cancel_inv (reattach t f s)"
  using inv by (auto simp: running_inv_def cancel_inv_def)

lemma scheduler_keeps_cancel_inv: "scheduler_keeps cancel_inv running_inv"
  unfolding scheduler_keeps_def
proof (intro conjI allI impI)
  fix t s assume "running_inv t s"
  then show "cancel_inv s" by (simp add: running_inv_def)
next
  fix t s assume "running_inv t s" "peek (taskQueue s) = Some t"
  then show "cancel_inv (popTask s)" by (simp add: running_inv_def cancel_inv_timers)
qed (simp_all add: cancel_inv_same cancel_inv_schedule cancel_inv_cancel cancel_inv_timers
      running_inv_before running_inv_same running_inv_schedule running_inv_cancel
      running_inv_reattach)

lemma cancel_inv_initial: "cancel_inv (initial t0 ds inp)"
  by (simp add: cancel_inv_def sched_inv_def queues_inv_def never_after_cancel_def initial_def)

section \<open>Cancelled tasks\<close>

text \<open>
  Claim C2. The trace has \<open>Cancelled a True\<close> where \<open>unstable_cancelCallback\<close> was
  called on task \<open>a\<close> while its callback slot held a function, and \<open>Invoked a d\<close>
  where the work loop called the callback of \<open>a\<close>. In every run of the host's event
  loop from the initial state, whatever the user code at top level and inside callbacks
  calls, no invocation of a task comes after such a cancellation of it. On any state
  \<open>u\<close>, \<open>unstable_cancelCallback\<close> leaves both queues as they are and changes
  nothing of the store but the callback of its task, which becomes null; a cancelled
  task at the head of the pending queue is popped by \<open>advanceTimers\<close>, and one that
  the work loop finds as its current task is popped without being called.
\<close>

theorem cancelled_never_invoked:
  assumes "run es (initial t0 ds inp) = Some s"
  shows "(\<forall>i j a d. i < j \<and> j < length (trace s) \<and> trace s ! i = Cancelled a True \<longrightarrow>
            trace s ! j \<noteq> Invoked a d) \<and>
         taskQueue (unstable_cancelCallback task u) = taskQueue u \<and>
         timerQueue (unstable_cancelCallback task u) = timerQueue u \<and>
         store (unstable_cancelCallback task u) =
           (store u)[task := (store u ! task)\<lparr>callback := None\<rparr>] \<and>
         (peek (timerQueue u) = Some t \<and> callback (store u ! t) = None \<longrightarrow>
            advanceTimers ct u =
              advanceTimers ct (u\<lparr>timerQueue := snd (pop (store u) (timerQueue u))\<rparr>)) \<and>
         (currentTask u = Some t \<and> callback (store u ! t) = None \<and>
          \<not> fst (shouldBreak h ct t u) \<longrightarrow>
            (\<exists>u'. workLoop_iteration h ct u = Again ct u' \<and> trace u' = trace u \<and>
                  store u' = store u \<and> taskQueue u' = snd (pop (store u) (taskQueue u))))"
proof -
  have "cancel_inv s"
    using scheduler_keeps_cancel_inv assms cancel_inv_initial by (rule scheduler_keeps_run)
  then have a: "\<forall>i j a d. i < j \<and> j < length (trace s) \<and> trace s ! i = Cancelled a True \<longrightarrow>
            trace s ! j \<noteq> Invoked a d"
    unfolding cancel_inv_def never_after_cancel_def by blast
  have b: "advanceTimers ct u =
              advanceTimers ct (u\<lparr>timerQueue := snd (pop (store u) (timerQueue u))\<rparr>)"
    if "peek (timerQueue u) = Some t" "callback (store u ! t) = None"
    using that by (subst advanceTimers_unfold) (simp add: dropTimer_def)
  have c: "\<exists>u'. workLoop_iteration h ct u = Again ct u' \<and> trace u' = trace u \<and>
                  store u' = store u \<and> taskQueue u' = snd (pop (store u) (taskQueue u))"
    if t: "currentTask u = Some t" "callback (store u ! t) = None" "\<not> fst (shouldBreak h ct t u)"
  proof (cases rule: workLoop_iteration_cases[of u h ct])
    case (cancelled task)
    have co: "core (snd (shouldBreak h ct task u)) = core u" by simp
    show ?thesis using cancelled(4) core_fields(1,3,4)[OF co] by simp
  qed (use t in auto)
  from a b c show ?thesis by simp
qed

theorem cancelled_never_invoked_witness:
  "map_option trace
     (run [UserEvent (ScheduleCallback NormalPriority noop OptionsAbsent),
           UserEvent (ScheduleCallback NormalPriority noop OptionsAbsent),
           UserEvent (ScheduleCallback NormalPriority noop (OptionsObject (Some (Finite 10)))),
           UserEvent (CancelCallback 0),
           UserEvent (CancelCallback 2),
           MessageEvent] (initial 0 [0, 0, 0, 20] None))
     = Some [Cancelled 0 True, Cancelled 2 True, Invoked 1 False] \<and>
   [Cancelled 0 True, Cancelled 2 True, Invoked 1 False] ! 2 \<noteq> Invoked 0 False"
proof -
  let ?es = "[UserEvent (ScheduleCallback NormalPriority noop OptionsAbsent),
           UserEvent (ScheduleCallback NormalPriority noop OptionsAbsent),
           UserEvent (ScheduleCallback NormalPriority noop (OptionsObject (Some (Finite 10)))),
           UserEvent (CancelCallback 0),
           UserEvent (CancelCallback 2),
           MessageEvent]"
  have r: "map_option trace (run ?es (initial 0 [0, 0, 0, 20] None))
           = Some [Cancelled 0 True, Cancelled 2 True, Invoked 1 False]"
    by code_simp
  then obtain s where s: "run ?es (initial 0 [0, 0, 0, 20] None) = Some s"
    and tr: "trace s = [Cancelled 0 True, Cancelled 2 True, Invoked 1 False]"
    by (auto simp: map_option_case split: option.splits)
  from cancelled_never_invoked[OF s] have
    "\<forall>i j a d. i < j \<and> j < length (trace s) \<and> trace s ! i = Cancelled a True \<longrightarrow>
        trace s ! j \<noteq> Invoked a d"
    by blast
  then have "trace s ! 2 \<noteq> Invoked 0 False" unfolding tr by simp
  then show ?thesis using r tr by simp
qed

section \<open>Promotion of pending tasks and the exit of the work loop\<close>


definition advanced :: "int \<Rightarrow> Scheduler \<Rightarrow> Scheduler \<Rightarrow> bool" where
  "advanced ct s x =
     (sched_inv x \<and> trace x = trace s \<and> length (store x) = length (store s) \<and>
      currentTask x = currentTask s \<and>
      (\<forall>a. callback (store x ! a) = callback (store s ! a) \<and>
           startTime (store x ! a) = startTime (store s ! a) \<and>
           expirationTime (store x ! a) = expirationTime (store s ! a) \<and>
           id_task (store x ! a) = id_task (store s ! a) \<and>
           priorityLevel (store x ! a) = priorityLevel (store s ! a)) \<and>
      set (timerQueue x) \<subseteq> set (timerQueue s) \<and>
      set (taskQueue x) =
        set (taskQueue s) \<union>
        {t \<in> set (timerQueue s) - set (timerQueue x). callback (store s ! t) \<noteq> None} \<and>
      (\<forall>t \<in> set (timerQueue s) - set (timerQueue x).
         callback (store s ! t) = None \<or>
         startTime (store s ! t) \<le> Finite ct \<and>
         sortIndex (store x ! t) = expirationTime (store s ! t)) \<and>
      (\<forall>a. a \<in> set (timerQueue x) \<or> a \<notin> set (timerQueue s) \<longrightarrow>
           sortIndex (store x ! a) = sortIndex (store s ! a)))"

lemma advanced_refl: "sched_inv s \<Longrightarrow> advanced ct s s"
  by (simp add: advanced_def)

lemma sched_inv_timer_head:
  assumes inv: "sched_inv x" and pk: "peek (timerQueue x) = Some t"
  shows "set (snd (pop (store x) (timerQueue x))) = set (timerQueue x) - {t}"
    and "t \<in> set (timerQueue x)" and "t \<notin> set (taskQueue x)" and "t < length (store x)"
proof -
  from pk have ne: "timerQueue x \<noteq> []" and t: "t = timerQueue x ! 0"
    by (auto simp: peek_def split: if_splits)
  have d: "distinct (timerQueue x)" using inv by (simp add: sched_inv_def queues_inv_def)
  show "set (snd (pop (store x) (timerQueue x))) = set (timerQueue x) - {t}"
    unfolding t by (rule pop_set[OF d ne])
  show tin: "t \<in> set (timerQueue x)" using ne t by simp
  show "t \<notin> set (taskQueue x)" using inv tin by (auto simp: sched_inv_def queues_inv_def)
  show "t < length (store x)" using inv tin by (auto simp: sched_inv_def queues_inv_def)
qed

lemma advanced_drop:
  assumes a: "advanced ct s x" and pk: "peek (timerQueue x) = Some t"
    and cb: "callback (store x ! t) = None"
  shows "advanced ct s (dropTimer x)"
proof -
  have inv: "sched_inv x" using a by (simp add: advanced_def)
  note h = sched_inv_timer_head[OF inv pk]
  have cbs: "callback (store s ! t) = None" using a cb by (simp add: advanced_def)
  have ts: "t \<in> set (timerQueue s)" using a h(2) by (auto simp: advanced_def)
  have rem: "set (timerQueue s) - (set (timerQueue x) - {t}) =
             insert t (set (timerQueue s) - set (timerQueue x))"
    using ts by auto
  have x: "sched_inv x" "trace x = trace s" "length (store x) = length (store s)"
    "currentTask x = currentTask s"
    "\<forall>a. callback (store x ! a) = callback (store s ! a) \<and>
           startTime (store x ! a) = startTime (store s ! a) \<and>
           expirationTime (store x ! a) = expirationTime (store s ! a) \<and>
           id_task (store x ! a) = id_task (store s ! a) \<and>
           priorityLevel (store x ! a) = priorityLevel (store s ! a)"
    "set (timerQueue x) \<subseteq> set (timerQueue s)"
    "set (taskQueue x) =
        set (taskQueue s) \<union>
        {t \<in> set (timerQueue s) - set (timerQueue x). callback (store s ! t) \<noteq> None}"
    "\<forall>t \<in> set (timerQueue s) - set (timerQueue x).
         callback (store s ! t) = None \<or>
         startTime (store s ! t) \<le> Finite ct \<and>
         sortIndex (store x ! t) = expirationTime (store s ! t)"
    "\<forall>a. a \<in> set (timerQueue x) \<or> a \<notin> set (timerQueue s) \<longrightarrow>
           sortIndex (store x ! a) = sortIndex (store s ! a)"
    using a unfolding advanced_def by blast+
  have q: "set (timerQueue (dropTimer x)) = set (timerQueue x) - {t}" using h(1) by simp
  have c7: "set (taskQueue (dropTimer x)) =
        set (taskQueue s) \<union>
        {t' \<in> set (timerQueue s) - set (timerQueue (dropTimer x)). callback (store s ! t') \<noteq> None}"
  proof -
    have e: "{t' \<in> insert t (set (timerQueue s) - set (timerQueue x)). callback (store s ! t') \<noteq> None}
           = {t' \<in> set (timerQueue s) - set (timerQueue x). callback (store s ! t') \<noteq> None}"
      using cbs by blast
    show ?thesis unfolding q rem e using x(7) by simp
  qed
  have c8: "\<forall>t' \<in> set (timerQueue s) - set (timerQueue (dropTimer x)).
         callback (store s ! t') = None \<or>
         startTime (store s ! t') \<le> Finite ct \<and>
         sortIndex (store (dropTimer x) ! t') = expirationTime (store s ! t')"
    unfolding q rem using x(8) cbs by simp
  have c9: "\<forall>a. a \<in> set (timerQueue (dropTimer x)) \<or> a \<notin> set (timerQueue s) \<longrightarrow>
           sortIndex (store (dropTimer x) ! a) = sortIndex (store s ! a)"
    unfolding q using x(9) by simp
  have c6: "set (timerQueue (dropTimer x)) \<subseteq> set (timerQueue s)"
    unfolding q using x(6) by auto
  show ?thesis
    unfolding advanced_def
    using sched_inv_pops(2)[OF inv] x(2-5) c6 c7 c8 c9 by simp
qed

lemma advanced_promote:
  assumes a: "advanced ct s x" and pk: "peek (timerQueue x) = Some t"
    and cb: "callback (store x ! t) \<noteq> None"
    and m: "startTime (store x ! t) \<le> Finite ct"
  shows "advanced ct s (promoteTimer t x)"
proof -
  have inv: "sched_inv x" using a by (simp add: advanced_def)
  note h = sched_inv_timer_head[OF inv pk]
  have cbs: "callback (store s ! t) \<noteq> None" using a cb by (simp add: advanced_def)
  have ms: "startTime (store s ! t) \<le> Finite ct" using a m by (simp add: advanced_def)
  have ex: "expirationTime (store x ! t) = expirationTime (store s ! t)"
    using a by (simp add: advanced_def)
  have ts: "t \<in> set (timerQueue s)" using a h(2) by (auto simp: advanced_def)
  have rem: "set (timerQueue s) - (set (timerQueue x) - {t}) =
             insert t (set (timerQueue s) - set (timerQueue x))"
    using ts by auto
  have tq: "set (taskQueue s) \<union>
        {t' \<in> insert t (set (timerQueue s) - set (timerQueue x)). callback (store s ! t') \<noteq> None}
      = insert t (set (taskQueue s) \<union>
        {t' \<in> set (timerQueue s) - set (timerQueue x). callback (store s ! t') \<noteq> None})"
    using cbs by auto
  show ?thesis
    unfolding advanced_def
    using a cbs ms ex h sched_inv_pops(3)[OF inv pk]
    by (simp add: advanced_def rem tq) blast
qed

lemma advanceTimers_advanced:
  assumes "sched_inv s"
  shows "advanced ct s (advanceTimers ct s)"
  by (rule advanceTimers_rule[where P = "advanced ct s"])
     (simp_all add: advanced_refl assms advanced_drop advanced_promote)







section \<open>The dispatch of a task\<close>

text \<open>
  Example data: a callback that schedules a more urgent task and returns a continuation;
  and the state in which a turn of the work loop goes round again.
\<close>

definition preempted :: fn where
  "preempted = Fn [ScheduleCallback UserBlockingPriority noop OptionsAbsent] (ReturnFunction noop)"

definition nextTurn :: "step \<Rightarrow> Scheduler option" where
  "nextTurn st = (case st of Again ct s \<Rightarrow> Some s | Exit r s \<Rightarrow> None)"

text \<open>
  Claim C5, as stated, fails: a task whose callback returned a function does not always
  remain at the head of the ready queue. The callback of a Normal task (address 0)
  schedules a UserBlocking task (address 1) and returns a continuation: after that turn
  of the loop the continuation is the callback of task 0, task 0 is in the ready queue,
  and the head of the ready queue and the current task of the next turn is task 1, which
  is invoked before the continuation.
\<close>

theorem continuation_leaves_the_head:
  "map_option trace
     (run [UserEvent (ScheduleCallback NormalPriority preempted OptionsAbsent), MessageEvent]
        (initial 0 [] None))
     = Some [Invoked 0 False, Invoked 1 False, Invoked 0 False] \<and>
   map_option (\<lambda>s. (taskQueue s, peek (taskQueue s), currentTask s, callback (store s ! 0), trace s))
     (nextTurn (workLoop_iteration True 0
        ((snd (unstable_scheduleCallback NormalPriority preempted OptionsAbsent (initial 0 [] None)))
           \<lparr>currentTask := Some 0\<rparr>)))
     = Some ([1, 0], Some 1, Some 1, Some noop, [Invoked 0 False])"
  by code_simp

definition ready_inv :: "nat \<Rightarrow> Scheduler \<Rightarrow> bool" where
  "ready_inv t s = (sched_inv s \<and> t \<in> set (taskQueue s))"

lemma ready_inv_schedule:
  assumes "ready_inv t s"
  shows "ready_inv t (snd (unstable_scheduleCallback level cb opts s))"
proof (cases rule: scheduleCallback_cases[of level cb opts s])
  case (delayed r)
  then show ?thesis using assms sched_inv_schedule[of s level cb opts] by (simp add: ready_inv_def)
next
  case (ready r)
  then show ?thesis using assms sched_inv_schedule[of s level cb opts] by (simp add: ready_inv_def)
qed

lemma ready_inv_user:
  assumes "ready_inv t s"
  shows "ready_inv t (snd (run_fn f s))"
proof -
  have "ready_inv t s \<longrightarrow> ready_inv t (snd (run_fn f s))"
  proof (rule user_code_core_induct(1)[where R = "\<lambda>s s'. ready_inv t s \<longrightarrow> ready_inv t s'"])
    show "ready_inv t s \<longrightarrow> ready_inv t s'" if "core s' = core s" for s s'
      using core_fields(1)[OF that] sched_inv_same[OF core_same_work[OF that]]
      by (simp add: ready_inv_def)
  qed (simp_all add: ready_inv_schedule, simp add: ready_inv_def)
  then show ?thesis using assms by simp
qed

lemma advanced_taskQueue:
  assumes "advanced ct s x"
  shows "set (taskQueue s) \<subseteq> set (taskQueue x)"
    and "set (taskQueue x) \<subseteq> set (taskQueue s) \<union> set (timerQueue s)"
    and "callback (store x ! a) = callback (store s ! a)"
  using assms unfolding advanced_def by - (blast, blast, simp)

lemma dispatch_after:
  assumes inv: "ready_inv task s2"
  shows "(\<forall>f. v = Function f \<longrightarrow>
            callback (store (snd (afterCallback task v s2)) ! task) = Some f \<and>
            task \<in> set (taskQueue (snd (afterCallback task v s2))) \<and>
            set (taskQueue s2) \<subseteq> set (taskQueue (snd (afterCallback task v s2)))) \<and>
         (v = NotFunction \<longrightarrow>
            (peek (taskQueue s2) = Some task \<longrightarrow>
               task \<notin> set (taskQueue (snd (afterCallback task v s2))) \<and>
               set (taskQueue s2) - {task} \<subseteq> set (taskQueue (snd (afterCallback task v s2)))) \<and>
            (peek (taskQueue s2) \<noteq> Some task \<longrightarrow>
               task \<in> set (taskQueue (snd (afterCallback task v s2))) \<and>
               set (taskQueue s2) \<subseteq> set (taskQueue (snd (afterCallback task v s2)))))"
proof -
  let ?g = "snd (getCurrentTime s2)"
  let ?ct = "fst (getCurrentTime s2)"
  have g: "sched_inv ?g" "taskQueue ?g = taskQueue s2" "timerQueue ?g = timerQueue s2"
    "store ?g = store s2"
    using inv sched_inv_same[of s2 ?g] core_same_work[of ?g s2] by (simp_all add: ready_inv_def)
  have mem: "task \<in> set (taskQueue s2)" using inv by (simp add: ready_inv_def)
  have len: "task < length (store s2)"
    using inv by (auto simp: ready_inv_def sched_inv_def queues_inv_def)
  have dis: "distinct (taskQueue s2)" "task \<notin> set (timerQueue s2)"
    using inv by (auto simp: ready_inv_def sched_inv_def queues_inv_def)
  show ?thesis
  proof (cases v)
    case (Function f)
    let ?x = "reattach task f ?g"
    have "sched_inv ?x" using g(1) by simp
    from advanceTimers_advanced[OF this, of ?ct] have ad: "advanced ?ct ?x (advanceTimers ?ct ?x)" .
    have "callback (store (advanceTimers ?ct ?x) ! task) = Some f"
      using advanced_taskQueue(3)[OF ad, of task] len g(4) by simp
    moreover have "set (taskQueue s2) \<subseteq> set (taskQueue (advanceTimers ?ct ?x))"
      using advanced_taskQueue(1)[OF ad] g(2) by simp
    ultimately show ?thesis using Function mem
      by (auto simp: afterCallback_unfold)
  next
    case NotFunction
    show ?thesis
    proof (cases "peek (taskQueue s2) = Some task")
      case True
      let ?x = "popTask ?g"
      from True have ne: "taskQueue s2 \<noteq> []" and t0: "task = taskQueue s2 ! 0"
        by (auto simp: peek_def split: if_splits)
      have ps: "set (taskQueue ?x) = set (taskQueue s2) - {task}"
        using pop_set[OF dis(1) ne, of "store s2"] g(2,4) t0 by simp
      have "sched_inv ?x" using g(1) by (rule sched_inv_pops(1))
      from advanceTimers_advanced[OF this, of ?ct] have ad: "advanced ?ct ?x (advanceTimers ?ct ?x)" .
      have "task \<notin> set (taskQueue (advanceTimers ?ct ?x))"
        using advanced_taskQueue(2)[OF ad] ps dis(2) g(3) by auto
      moreover have "set (taskQueue s2) - {task} \<subseteq> set (taskQueue (advanceTimers ?ct ?x))"
        using advanced_taskQueue(1)[OF ad] ps by simp
      ultimately show ?thesis using NotFunction True
        by (simp add: afterCallback_unfold)
    next
      case False
      from advanceTimers_advanced[OF g(1), of ?ct] have ad: "advanced ?ct ?g (advanceTimers ?ct ?g)" .
      have "set (taskQueue s2) \<subseteq> set (taskQueue (advanceTimers ?ct ?g))"
        using advanced_taskQueue(1)[OF ad] g(2) by simp
      then show ?thesis using NotFunction False mem
        by (auto simp: afterCallback_unfold)
    qed
  qed
qed

text \<open>
  Claim C5, amended. A turn of the work loop whose current task \<open>task\<close>, the head of
  the ready queue, has a function \<open>cb\<close> in its callback slot and which does not break:
  the callback is called on the state \<open>B\<close>, in which the slot is null, the priority is
  the task's and the invocation is recorded with \<open>didTimeout = (expirationTime \<le> now)\<close>,
  the queues being as before. If it throws, the turn ends the loop with that state. If it
  returns a function \<open>f\<close>, then after the turn \<open>f\<close> is the callback of the task, the
  task is in the ready queue and no task has left the ready queue. If it returns a value
  that is not a function, the task has left the ready queue when it was the head of the
  ready queue at the return, and no other task has; when it was not the head, no task
  has left the ready queue.
\<close>

theorem dispatch_step:
  assumes inv: "sched_inv s" and top: "currentTask s = Some task"
    and head: "peek (taskQueue s) = Some task"
    and nb: "\<not> fst (shouldBreak h ct task s)"
    and cb: "callback (store s ! task) = Some cb"
  shows
    "(let B = beforeCallback task ct (snd (shouldBreak h ct task s));
          s2 = snd (run_fn cb B)
      in callback (store B ! task) = None \<and>
         trace B = trace s @ [Invoked task (expirationTime (store s ! task) \<le> Finite ct)] \<and>
         currentPriorityLevel B = priorityLevel (store s ! task) \<and>
         taskQueue B = taskQueue s \<and> timerQueue B = timerQueue s \<and>
         (fst (run_fn cb B) = Thrown \<longrightarrow> workLoop_iteration h ct s = Exit Thrown s2) \<and>
         (\<forall>v. fst (run_fn cb B) = Returned v \<longrightarrow>
            (let s3 = snd (afterCallback task v s2)
             in workLoop_iteration h ct s =
                  Again (fst (afterCallback task v s2)) (s3\<lparr>currentTask := peek (taskQueue s3)\<rparr>) \<and>
                (\<forall>f. v = Function f \<longrightarrow>
                   callback (store s3 ! task) = Some f \<and> task \<in> set (taskQueue s3) \<and>
                   set (taskQueue s2) \<subseteq> set (taskQueue s3)) \<and>
                (v = NotFunction \<longrightarrow>
                   (peek (taskQueue s2) = Some task \<longrightarrow>
                      task \<notin> set (taskQueue s3) \<and>
                      set (taskQueue s2) - {task} \<subseteq> set (taskQueue s3)) \<and>
                   (peek (taskQueue s2) \<noteq> Some task \<longrightarrow>
                      task \<in> set (taskQueue s3) \<and>
                      set (taskQueue s2) \<subseteq> set (taskQueue s3))))))"
proof -
  let ?s1 = "snd (shouldBreak h ct task s)"
  let ?B = "beforeCallback task ct ?s1"
  let ?s2 = "snd (run_fn cb ?B)"
  have co: "core ?s1 = core s" by simp
  note f = core_fields[OF co]
  have len: "task < length (store s)" using inv head by (rule sched_inv_peek)
  have mem: "task \<in> set (taskQueue s)" using head by (rule peek_in_set)
  have b1: "callback (store ?B ! task) = None" using len f(3) by simp
  have b2: "trace ?B = trace s @ [Invoked task (expirationTime (store s ! task) \<le> Finite ct)]"
    using f(3,4) by simp
  have b3: "currentPriorityLevel ?B = priorityLevel (store s ! task)"
    using f(3) by (simp add: beforeCallback_def Let_def)
  have b4: "taskQueue ?B = taskQueue s" "timerQueue ?B = timerQueue s" using f(1,2) by simp_all
  have "ready_inv task ?B"
    using inv mem sched_inv_same[OF core_same_work[OF co]] f(1) by (simp add: ready_inv_def)
  then have r2: "ready_inv task ?s2" by (rule ready_inv_user)
  have thr: "workLoop_iteration h ct s = Exit Thrown ?s2" if "fst (run_fn cb ?B) = Thrown"
    by (cases rule: workLoop_iteration_cases[of s h ct]) (use top nb cb that in auto)
  have ret: "workLoop_iteration h ct s =
      Again (fst (afterCallback task v ?s2))
        ((snd (afterCallback task v ?s2))
           \<lparr>currentTask := peek (taskQueue (snd (afterCallback task v ?s2)))\<rparr>)"
    if "fst (run_fn cb ?B) = Returned v" for v
    by (cases rule: workLoop_iteration_cases[of s h ct]) (use top nb cb that in auto)
  show ?thesis
    unfolding Let_def
    using b1 b2 b3 b4 thr ret dispatch_after[OF r2] by blast
qed

theorem dispatch_step_witness:
  "map_option (\<lambda>s. (taskQueue s, callback (store s ! 0), trace s))
     (nextTurn (workLoop_iteration True 0
        ((snd (unstable_scheduleCallback NormalPriority preempted OptionsAbsent (initial 0 [] None)))
           \<lparr>currentTask := Some 0\<rparr>)))
     = Some ([1, 0], Some noop, [Invoked 0 False]) \<and>
   map_option (\<lambda>s. (taskQueue s, callback (store s ! 0), trace s))
     (nextTurn (workLoop_iteration True 0
        ((snd (unstable_scheduleCallback NormalPriority noop OptionsAbsent (initial 0 [] None)))
           \<lparr>currentTask := Some 0\<rparr>)))
     = Some ([], None, [Invoked 0 False])"
proof -
  let ?a = "(snd (unstable_scheduleCallback NormalPriority preempted OptionsAbsent (initial 0 [] None)))
           \<lparr>currentTask := Some 0\<rparr>"
  let ?b = "(snd (unstable_scheduleCallback NormalPriority noop OptionsAbsent (initial 0 [] None)))
           \<lparr>currentTask := Some 0\<rparr>"
  have ha: "sched_inv ?a" "currentTask ?a = Some 0" "peek (taskQueue ?a) = Some 0"
    "\<not> fst (shouldBreak True 0 0 ?a)" "callback (store ?a ! 0) = Some preempted"
    by code_simp+
  have hb: "sched_inv ?b" "currentTask ?b = Some 0" "peek (taskQueue ?b) = Some 0"
    "\<not> fst (shouldBreak True 0 0 ?b)" "callback (store ?b ! 0) = Some noop"
    by code_simp+
  have ra: "fst (run_fn preempted (beforeCallback 0 0 (snd (shouldBreak True 0 0 ?a))))
            = Returned (Function noop)"
    by code_simp
  have rb: "fst (run_fn noop (beforeCallback 0 0 (snd (shouldBreak True 0 0 ?b))))
            = Returned NotFunction"
    by code_simp
  have ea: "map_option (\<lambda>s. (taskQueue s, trace s)) (nextTurn (workLoop_iteration True 0 ?a))
            = Some ([1, 0], [Invoked 0 False])"
    by code_simp
  have eb: "map_option (\<lambda>s. (taskQueue s, callback (store s ! 0), trace s))
              (nextTurn (workLoop_iteration True 0 ?b))
            = Some ([], None, [Invoked 0 False])"
    by code_simp
  from dispatch_step[OF ha] ra
  have ia: "workLoop_iteration True 0 ?a =
      Again (fst (afterCallback 0 (Function noop)
               (snd (run_fn preempted (beforeCallback 0 0 (snd (shouldBreak True 0 0 ?a)))))))
        ((snd (afterCallback 0 (Function noop)
               (snd (run_fn preempted (beforeCallback 0 0 (snd (shouldBreak True 0 0 ?a)))))))
         \<lparr>currentTask := peek (taskQueue (snd (afterCallback 0 (Function noop)
               (snd (run_fn preempted (beforeCallback 0 0 (snd (shouldBreak True 0 0 ?a))))))))\<rparr>)"
    and ca: "callback (store (snd (afterCallback 0 (Function noop)
               (snd (run_fn preempted (beforeCallback 0 0 (snd (shouldBreak True 0 0 ?a)))))))
               ! 0) = Some noop"
    unfolding Let_def by blast+
  have "map_option (\<lambda>s. callback (store s ! 0)) (nextTurn (workLoop_iteration True 0 ?a))
        = Some (Some noop)"
    unfolding ia using ca by (simp add: nextTurn_def)
  then show ?thesis using ea eb
    by (cases "nextTurn (workLoop_iteration True 0 ?a)") auto
qed

end
